theory Spec2Isabelle
  imports Complex_Main
begin

section \<open>Data model\<close>

text \<open>
  The family tree of \<^verbatim>\<open>index.tsx\<close>. A JavaScript object used as a dictionary
  (\<^verbatim>\<open>Record<string, V>\<close>) is an association list of its own properties in the order in
  which \<^verbatim>\<open>Object.keys\<close>, \<^verbatim>\<open>Object.values\<close> and the spread operator enumerate them;
  a look-up \<^verbatim>\<open>obj[k]\<close> of an own property is \<open>map_of\<close>. A look-up of a key that is
  no own property goes on to \<^verbatim>\<open>Object.prototype\<close>, the prototype of every object of
  the program; see \<open>inherited\<close> below. The field \<^verbatim>\<open>id\<close> of a person and
  of a marriage is written \<open>person_id\<close> and \<open>marriage_id\<close>, since \<open>id\<close> is the identity
  function of HOL, and the field \<^verbatim>\<open>notes\<close> is \<open>person_notes\<close>.
\<close>

datatype Gender = male | female

record Person =
  person_id :: string
  name :: string
  gender :: Gender
  birthYear :: "int option"
  deathYear :: "int option"
  person_notes :: "string option"
  external :: "bool option"
  email :: "string option"
  phone :: "string option"

record Marriage =
  marriage_id :: string
  spouse1Id :: string
  spouse2Id :: string
  marriageYear :: "int option"

record ChildLink =
  marriageId :: string
  personId :: string

record FamilyTree =
  persons :: "(string \<times> Person) list"
  marriages :: "(string \<times> Marriage) list"
  children :: "ChildLink list"

section \<open>Property order of JavaScript objects\<close>

text \<open>
  An object enumerates its own properties with the array indices first (the canonical
  decimal strings of the integers from 0 to 4294967294, in ascending numeric order) and
  the other string keys after them, in the order of their creation. An assignment to an
  existing key keeps the key's place; \<open>js_insert\<close> gives a new key its place in an
  association list that is kept in the order of enumeration. The first argument tells
  whether a key is an array index: \<open>array_index\<close> for a string key, \<open>number_index\<close>
  for a number used as a key.
\<close>

definition digit :: "char \<Rightarrow> int option" where
  "digit c = (let n = (of_char c :: int) in if 48 \<le> n \<and> n \<le> 57 then Some (n - 48) else None)"

fun decimal :: "int \<Rightarrow> string \<Rightarrow> int option" where
  "decimal acc [] = Some acc"
| "decimal acc (c # cs) =
     (case digit c of None \<Rightarrow> None | Some d \<Rightarrow> decimal (10 * acc + d) cs)"

definition array_index :: "string \<Rightarrow> int option" where
  "array_index k =
     (case k of
        [] \<Rightarrow> None
      | c # cs \<Rightarrow>
          if c = CHR ''0'' \<and> cs \<noteq> [] then None
          else (case decimal 0 k of
                  None \<Rightarrow> None
                | Some n \<Rightarrow> if n < 4294967295 then Some n else None))"

definition number_index :: "int \<Rightarrow> int option" where
  "number_index g = (if 0 \<le> g \<and> g < 4294967295 then Some g else None)"

fun js_insert :: "('k \<Rightarrow> int option) \<Rightarrow> 'k \<Rightarrow> 'v \<Rightarrow> ('k \<times> 'v) list \<Rightarrow> ('k \<times> 'v) list" where
  "js_insert ix k v [] = [(k, v)]"
| "js_insert ix k v ((k', v') # rest) =
     (case ix k of
        None \<Rightarrow> (k', v') # js_insert ix k v rest
      | Some n \<Rightarrow>
          (case ix k' of
             None \<Rightarrow> (k, v) # (k', v') # rest
           | Some n' \<Rightarrow>
               if n < n' then (k, v) # (k', v') # rest
               else (k', v') # js_insert ix k v rest))"

fun js_update :: "'k \<Rightarrow> 'v \<Rightarrow> ('k \<times> 'v) list \<Rightarrow> ('k \<times> 'v) list" where
  "js_update k v [] = []"
| "js_update k v ((k', v') # rest) =
     (if k' = k then (k, v) # rest else (k', v') # js_update k v rest)"

definition js_set :: "('k \<Rightarrow> int option) \<Rightarrow> 'k \<Rightarrow> 'v \<Rightarrow> ('k \<times> 'v) list \<Rightarrow> ('k \<times> 'v) list" where
  "js_set ix k v obj =
     (if map_of obj k = None then js_insert ix k v obj else js_update k v obj)"

section \<open>Members inherited from the prototype\<close>

text \<open>
  The property names of \<^verbatim>\<open>Object.prototype\<close> (ECMAScript, with its Annex B). Under
  each of them a look-up \<^verbatim>\<open>obj[k]\<close> finds a function, and under \<^verbatim>\<open>__proto__\<close> the
  prototype object itself, when the object has no own property of that name: a truthy
  value without any of the fields the program reads from it. The objects of the program
  hold objects as values, so a look-up is truthy exactly when the key is an own property
  or such a name.
\<close>

definition object_prototype_names :: "string list" where
  "object_prototype_names =
     [''constructor'', ''__defineGetter__'', ''__defineSetter__'', ''hasOwnProperty'',
      ''__lookupGetter__'', ''__lookupSetter__'', ''isPrototypeOf'',
      ''propertyIsEnumerable'', ''toString'', ''valueOf'', ''__proto__'',
      ''toLocaleString'']"

definition inherited :: "string \<Rightarrow> bool" where
  "inherited k \<longleftrightarrow> k \<in> set object_prototype_names"

definition has_member :: "(string \<times> 'v) list \<Rightarrow> string \<Rightarrow> bool" where
  "has_member obj k = (case map_of obj k of Some v \<Rightarrow> True | None \<Rightarrow> inherited k)"

text \<open>
  An assignment \<^verbatim>\<open>obj[k] = v\<close>. Under the key \<^verbatim>\<open>__proto__\<close> it calls the setter of
  the prototype accessor and creates no own property (a number is ignored, an object
  becomes the prototype). A computed key of an object literal, as in the insertions
  below, always creates an own property and is \<open>js_set\<close>.
\<close>

definition js_assign :: "string \<Rightarrow> 'v \<Rightarrow> (string \<times> 'v) list \<Rightarrow> (string \<times> 'v) list" where
  "js_assign k v obj = (if k = ''__proto__'' then obj else js_set array_index k v obj)"

section \<open>Tree mutation functions\<close>

text \<open>
  The insertions \<^verbatim>\<open>{ ...tree.persons, [person.id]: person }\<close> copy the mapping and
  assign one key.
\<close>

definition addPerson :: "FamilyTree \<Rightarrow> Person \<Rightarrow> FamilyTree" where
  "addPerson tree person =
     tree\<lparr>persons := js_set array_index (person_id person) person (persons tree)\<rparr>"

definition updatePerson :: "FamilyTree \<Rightarrow> Person \<Rightarrow> FamilyTree" where
  "updatePerson tree person =
     tree\<lparr>persons := js_set array_index (person_id person) person (persons tree)\<rparr>"

definition addMarriage :: "FamilyTree \<Rightarrow> Marriage \<Rightarrow> FamilyTree" where
  "addMarriage tree marriage =
     tree\<lparr>marriages := js_set array_index (marriage_id marriage) marriage (marriages tree)\<rparr>"

definition addChild :: "FamilyTree \<Rightarrow> string \<Rightarrow> string \<Rightarrow> FamilyTree" where
  "addChild tree mId pId =
     (if list_ex (\<lambda>link. marriageId link = mId \<and> personId link = pId) (children tree)
      then tree
      else tree\<lparr>children := children tree @ [\<lparr>marriageId = mId, personId = pId\<rparr>]\<rparr>)"

text \<open>
  \<^verbatim>\<open>deletePerson\<close>: the copy of the person mapping without the key, the copy of the
  marriage mapping without every entry one of whose spouses is the person, and the child
  links that are not the person's and for which the look-up
  \<^verbatim>\<open>newMarriages[link.marriageId]\<close> is truthy.
\<close>

definition deletePerson :: "FamilyTree \<Rightarrow> string \<Rightarrow> FamilyTree" where
  "deletePerson tree pId =
     (let newPersons = filter (\<lambda>(k, p). k \<noteq> pId) (persons tree);
          newMarriages = filter (\<lambda>(k, m). \<not> (spouse1Id m = pId \<or> spouse2Id m = pId))
                           (marriages tree);
          newChildren = filter (\<lambda>link. personId link \<noteq> pId
                                  \<and> has_member newMarriages (marriageId link))
                          (children tree)
      in \<lparr>persons = newPersons, marriages = newMarriages, children = newChildren\<rparr>)"

section \<open>Generations\<close>

definition getChildrenOfMarriage :: "FamilyTree \<Rightarrow> string \<Rightarrow> string list" where
  "getChildrenOfMarriage tree mId =
     map personId (filter (\<lambda>link. marriageId link = mId) (children tree))"

text \<open>
  The state of the loop of \<^verbatim>\<open>computeGenerations\<close>: the queue of identifiers with
  their levels, the visited set and the generation mapping.
\<close>

record bfs_state =
  queue :: "(string \<times> int) list"
  visited :: "string set"
  generations :: "(string \<times> int) list"

text \<open>
  The three statements the source repeats for a newly found person:
  \<^verbatim>\<open>visited.add(x); generations[x] = l; queue.push({ id: x, level: l })\<close>.
\<close>

definition enqueue :: "string \<Rightarrow> int \<Rightarrow> bfs_state \<Rightarrow> bfs_state" where
  "enqueue i level s =
     s\<lparr>visited := insert i (visited s),
       generations := js_assign i level (generations s),
       queue := queue s @ [(i, level)]\<rparr>"

text \<open>
  The body of \<^verbatim>\<open>for (const m of personMarriages)\<close>: the spouse, when the identifier is
  not the empty string (which is falsy) and not visited, at the same level; then every
  child of the marriage that is not visited, one level below.
\<close>

definition visit_child :: "int \<Rightarrow> string \<Rightarrow> bfs_state \<Rightarrow> bfs_state" where
  "visit_child level childId s =
     (if childId \<notin> visited s then enqueue childId (level + 1) s else s)"

definition visit_marriage :: "FamilyTree \<Rightarrow> string \<Rightarrow> int \<Rightarrow> Marriage \<Rightarrow> bfs_state \<Rightarrow> bfs_state" where
  "visit_marriage tree i level m s =
     (let spouseId = (if spouse1Id m = i then spouse2Id m else spouse1Id m);
          s1 = (if spouseId \<noteq> [] \<and> spouseId \<notin> visited s then enqueue spouseId level s else s)
      in fold (visit_child level) (getChildrenOfMarriage tree (marriage_id m)) s1)"

text \<open>
  The parents: the first child link of the person, the marriage stored under the link's
  marriage identifier, and both its spouses, one level above. When the identifier is no
  own key but an inherited name, the look-up is truthy and both its spouse fields are
  \<^verbatim>\<open>undefined\<close>, which is falsy: nobody is visited, as for a missing marriage.
\<close>

definition visit_parent :: "int \<Rightarrow> string \<Rightarrow> bfs_state \<Rightarrow> bfs_state" where
  "visit_parent level pId s =
     (if pId \<noteq> [] \<and> pId \<notin> visited s then enqueue pId (level - 1) s else s)"

definition visit_parents :: "FamilyTree \<Rightarrow> string \<Rightarrow> int \<Rightarrow> bfs_state \<Rightarrow> bfs_state" where
  "visit_parents tree i level s =
     (case find (\<lambda>link. personId link = i) (children tree) of
        None \<Rightarrow> s
      | Some childLink \<Rightarrow>
          (case map_of (marriages tree) (marriageId childLink) of
             None \<Rightarrow> s
           | Some marriage \<Rightarrow>
               fold (visit_parent level) [spouse1Id marriage, spouse2Id marriage] s))"

text \<open>One iteration of the \<^verbatim>\<open>while\<close> loop; nothing happens on an empty queue.\<close>

definition bfs_step :: "FamilyTree \<Rightarrow> bfs_state \<Rightarrow> bfs_state" where
  "bfs_step tree s =
     (case queue s of
        [] \<Rightarrow> s
      | (i, level) # rest \<Rightarrow>
          (let personMarriages =
                 filter (\<lambda>m. spouse1Id m = i \<or> spouse2Id m = i) (map snd (marriages tree));
               s1 = fold (visit_marriage tree i level) personMarriages (s\<lparr>queue := rest\<rparr>)
           in visit_parents tree i level s1))"

text \<open>
  Every identifier the tree mentions: the keys of the person mapping, the spouses of the
  marriages and the persons of the child links.
\<close>

definition tree_ids :: "FamilyTree \<Rightarrow> string list" where
  "tree_ids tree =
     map fst (persons tree)
     @ concat (map (\<lambda>(k, m). [spouse1Id m, spouse2Id m]) (marriages tree))
     @ map personId (children tree)"

definition bfs_measure :: "FamilyTree \<Rightarrow> bfs_state \<Rightarrow> nat" where
  "bfs_measure tree s = card (set (tree_ids tree) - visited s) + length (queue s)"

text \<open>
  The \<^verbatim>\<open>while (queue.length > 0)\<close> loop terminates: an iteration takes one entry
  from the queue, and every entry it adds is an identifier of the tree that was not
  visited before. The measure \<open>bfs_measure\<close> counts the identifiers of the tree that
  are not visited, plus the length of the queue.
\<close>

lemma enqueue_measure:
  assumes "i \<in> set (tree_ids tree)" and "i \<notin> visited s"
  shows "bfs_measure tree (enqueue i level s) = bfs_measure tree s"
proof -
  have fin: "finite (set (tree_ids tree) - visited s)" by simp
  have mem: "i \<in> set (tree_ids tree) - visited s" using assms by simp
  have "set (tree_ids tree) - insert i (visited s) = (set (tree_ids tree) - visited s) - {i}"
    by auto
  then have "card (set (tree_ids tree) - insert i (visited s))
             = card (set (tree_ids tree) - visited s) - 1"
    using fin mem by simp
  moreover have "0 < card (set (tree_ids tree) - visited s)"
    using fin mem by (auto simp: card_gt_0_iff)
  ultimately show ?thesis
    by (simp add: bfs_measure_def enqueue_def)
qed

lemma fold_measure:
  assumes "\<And>x s. x \<in> set xs \<Longrightarrow> bfs_measure tree (f x s) = bfs_measure tree s"
  shows "bfs_measure tree (fold f xs s) = bfs_measure tree s"
  using assms by (induction xs arbitrary: s) simp_all

lemma child_in_tree_ids:
  "c \<in> set (getChildrenOfMarriage tree mId) \<Longrightarrow> c \<in> set (tree_ids tree)"
  by (auto simp: getChildrenOfMarriage_def tree_ids_def)

lemma spouse_in_tree_ids:
  "(k, m) \<in> set (marriages tree) \<Longrightarrow>
     spouse1Id m \<in> set (tree_ids tree) \<and> spouse2Id m \<in> set (tree_ids tree)"
  by (force simp: tree_ids_def)

lemma visit_child_measure:
  "c \<in> set (tree_ids tree) \<Longrightarrow>
     bfs_measure tree (visit_child level c s) = bfs_measure tree s"
  by (simp add: visit_child_def enqueue_measure)

lemma visit_parent_measure:
  "p \<in> set (tree_ids tree) \<Longrightarrow>
     bfs_measure tree (visit_parent level p s) = bfs_measure tree s"
  by (simp add: visit_parent_def enqueue_measure)

lemma visit_marriage_measure:
  assumes "m \<in> snd ` set (marriages tree)"
  shows "bfs_measure tree (visit_marriage tree i level m s) = bfs_measure tree s"
proof -
  from assms obtain k where "(k, m) \<in> set (marriages tree)" by auto
  then have sp: "spouse1Id m \<in> set (tree_ids tree)" "spouse2Id m \<in> set (tree_ids tree)"
    using spouse_in_tree_ids by blast+
  show ?thesis
    unfolding visit_marriage_def Let_def
    by (subst fold_measure) (auto simp: visit_child_measure child_in_tree_ids enqueue_measure sp)
qed

lemma visit_parents_measure:
  "bfs_measure tree (visit_parents tree i level s) = bfs_measure tree s"
proof (cases "find (\<lambda>link. personId link = i) (children tree)")
  case None
  then show ?thesis by (simp add: visit_parents_def)
next
  case (Some childLink)
  show ?thesis
  proof (cases "map_of (marriages tree) (marriageId childLink)")
    case None
    with Some show ?thesis by (simp add: visit_parents_def)
  next
    case (Some marriage)
    then have "(marriageId childLink, marriage) \<in> set (marriages tree)"
      by (rule map_of_SomeD)
    then have "spouse1Id marriage \<in> set (tree_ids tree)" "spouse2Id marriage \<in> set (tree_ids tree)"
      using spouse_in_tree_ids by blast+
    with Some \<open>find _ _ = Some childLink\<close> show ?thesis
      by (simp add: visit_parents_def visit_parent_measure)
  qed
qed

lemma bfs_step_measure:
  assumes "queue s \<noteq> []"
  shows "Suc (bfs_measure tree (bfs_step tree s)) = bfs_measure tree s"
proof -
  from assms obtain i level rest where q: "queue s = (i, level) # rest"
    by (cases "queue s") auto
  have "bfs_measure tree (bfs_step tree s) = bfs_measure tree (s\<lparr>queue := rest\<rparr>)"
    unfolding bfs_step_def q Let_def
    by (simp add: visit_parents_measure)
       (rule fold_measure, rule visit_marriage_measure, auto)
  also have "Suc \<dots> = bfs_measure tree s"
    by (simp add: bfs_measure_def q)
  finally show ?thesis by simp
qed

function bfs_loop :: "FamilyTree \<Rightarrow> bfs_state \<Rightarrow> bfs_state" where
  "bfs_loop tree s = (if queue s = [] then s else bfs_loop tree (bfs_step tree s))"
  by pat_completeness auto

termination
proof (relation "measure (\<lambda>(tree, s). bfs_measure tree s)")
  show "wf (measure (\<lambda>(tree, s). bfs_measure tree s))" by simp
next
  fix tree :: FamilyTree and s :: bfs_state
  assume "queue s \<noteq> []"
  then show "((tree, bfs_step tree s), (tree, s)) \<in> measure (\<lambda>(tree, s). bfs_measure tree s)"
    using bfs_step_measure [of s tree] by simp
qed

declare bfs_loop.simps [simp del]

definition bfs_init :: "string \<Rightarrow> bfs_state" where
  "bfs_init startId =
     \<lparr>queue = [(startId, 0)], visited = {startId},
      generations = js_assign startId 0 []\<rparr>"

definition computeGenerations :: "FamilyTree \<Rightarrow> string \<Rightarrow> (string \<times> int) list" where
  "computeGenerations tree startId =
     (if \<not> has_member (persons tree) startId then []
      else generations (bfs_loop tree (bfs_init startId)))"

section \<open>Layout\<close>

text \<open>
  The \<^verbatim>\<open>layout\<close> memo of the component \<^verbatim>\<open>App\<close>. Coordinates are JavaScript
  numbers. Those of a person are multiples of 150 and 260 and are modelled as rationals;
  those of a marriage can be \<^verbatim>\<open>NaN\<close> as well. The fields \<^verbatim>\<open>x\<close> and \<^verbatim>\<open>y\<close> of a
  coordinate are \<open>x_coord\<close> and \<open>y_coord\<close> for a person, \<open>x_mid\<close> and \<open>y_mid\<close> for a
  marriage. The coordinate maps are only ever looked up by key; they are the maps of
  the own properties of the two objects.
\<close>

definition HORIZONTAL_SPACING :: rat where "HORIZONTAL_SPACING = 300"
definition VERTICAL_SPACING :: rat where "VERTICAL_SPACING = 260"

record Coord =
  x_coord :: rat
  y_coord :: rat

datatype number = Num rat | NaN

record MarriageCoord =
  x_mid :: number
  y_mid :: number

record Layout =
  personCoords :: "string \<rightharpoonup> Coord"
  marriageCoords :: "string \<rightharpoonup> MarriageCoord"
  gens :: "(string \<times> int) list"

text \<open>
  The state of \<^verbatim>\<open>sortedIds.forEach\<close>: the buckets \<^verbatim>\<open>peopleByGen\<close>, an object keyed
  by generation numbers, and the set \<^verbatim>\<open>addedToLayout\<close>.
\<close>

record bucket_state =
  peopleByGen :: "(int \<times> string list) list"
  addedToLayout :: "string set"

text \<open>\<^verbatim>\<open>peopleByGen[gen].push(i)\<close>: the array stored under the key grows in place.\<close>

definition push_to :: "int \<Rightarrow> string \<Rightarrow> (int \<times> string list) list \<Rightarrow> (int \<times> string list) list" where
  "push_to gen i pbg = map (\<lambda>(g, ids). if g = gen then (g, ids @ [i]) else (g, ids)) pbg"

text \<open>
  The body of \<^verbatim>\<open>marriages.forEach\<close>: the spouse joins the bucket right after the person
  when it is not added yet and has the same generation.
\<close>

definition layout_spouse :: "(string \<times> int) list \<Rightarrow> string \<Rightarrow> int \<Rightarrow> Marriage \<Rightarrow> bucket_state \<Rightarrow> bucket_state" where
  "layout_spouse gns i gen m st =
     (let spouseId = (if spouse1Id m = i then spouse2Id m else spouse1Id m)
      in if spouseId \<noteq> [] \<and> spouseId \<notin> addedToLayout st \<and> map_of gns spouseId = Some gen
         then st\<lparr>peopleByGen := push_to gen spouseId (peopleByGen st),
                 addedToLayout := insert spouseId (addedToLayout st)\<rparr>
         else st)"

text \<open>
  The body of \<^verbatim>\<open>sortedIds.forEach\<close>, for an identifier with its generation
  \<^verbatim>\<open>gens[id]\<close>.
\<close>

definition layout_person :: "FamilyTree \<Rightarrow> (string \<times> int) list \<Rightarrow> string \<times> int \<Rightarrow> bucket_state \<Rightarrow> bucket_state" where
  "layout_person tree gns entry st =
     (case entry of (i, gen) \<Rightarrow>
        if i \<in> addedToLayout st then st
        else
          (let pbg = (if map_of (peopleByGen st) gen = None
                      then js_set number_index gen [] (peopleByGen st)
                      else peopleByGen st);
               st1 = st\<lparr>peopleByGen := push_to gen i pbg,
                         addedToLayout := insert i (addedToLayout st)\<rparr>;
               ms = filter (\<lambda>m. spouse1Id m = i \<or> spouse2Id m = i) (map snd (marriages tree))
           in fold (layout_spouse gns i gen) ms st1))"

text \<open>
  \<^verbatim>\<open>Object.keys(gens).sort((a, b) => gens[a] - gens[b])\<close> is a stable sort of the keys
  by their values; the entries are sorted here, so that each key comes with its value.
\<close>

definition buckets :: "FamilyTree \<Rightarrow> (string \<times> int) list \<Rightarrow> (int \<times> string list) list" where
  "buckets tree gns =
     peopleByGen (fold (layout_person tree gns) (sort_key snd gns)
       \<lparr>peopleByGen = [], addedToLayout = {}\<rparr>)"

text \<open>
  \<^verbatim>\<open>Object.entries(peopleByGen).forEach\<close>: a row of persons, centred around 0. The key
  of a bucket is read back with \<^verbatim>\<open>parseInt\<close>, which gives the generation number.
  The assignment \<^verbatim>\<open>personCoords[id] = { x, y: rowY }\<close> creates no own property for the
  identifier \<^verbatim>\<open>__proto__\<close>; no bucket of the layout holds this identifier
  (\<open>layout_buckets_no_proto\<close> below), so that the prototype of \<^verbatim>\<open>personCoords\<close> is
  always \<^verbatim>\<open>Object.prototype\<close>.
\<close>

definition place_person :: "rat \<Rightarrow> rat \<Rightarrow> nat \<times> string \<Rightarrow> (string \<rightharpoonup> Coord) \<Rightarrow> (string \<rightharpoonup> Coord)" where
  "place_person rowY rowWidth entry pc =
     (case entry of (idx, i) \<Rightarrow>
        if i = ''__proto__'' then pc
        else pc(i \<mapsto> \<lparr>x_coord = of_nat idx * HORIZONTAL_SPACING - rowWidth / 2,
                       y_coord = rowY\<rparr>))"

definition place_row :: "int \<times> string list \<Rightarrow> (string \<rightharpoonup> Coord) \<Rightarrow> (string \<rightharpoonup> Coord)" where
  "place_row entry pc =
     (case entry of (gen, ids) \<Rightarrow>
        (let rowY = of_int gen * VERTICAL_SPACING;
             rowWidth = (of_nat (length ids) - 1) * HORIZONTAL_SPACING
         in fold (place_person rowY rowWidth) (enumerate 0 ids) pc))"

text \<open>
  The value of \<^verbatim>\<open>personCoords[k]\<close>: the coordinate stored under an own key, else the
  member inherited under a name of the prototype, else \<^verbatim>\<open>undefined\<close>. Only
  \<^verbatim>\<open>undefined\<close> is falsy. The fields \<^verbatim>\<open>x\<close> and \<^verbatim>\<open>y\<close> of an inherited member are
  \<^verbatim>\<open>undefined\<close>, and an addition or a division with \<^verbatim>\<open>undefined\<close> gives \<^verbatim>\<open>NaN\<close>.
\<close>

datatype coord_member = Own Coord | Inherited | Undefined

definition read_coord :: "(string \<rightharpoonup> Coord) \<Rightarrow> string \<Rightarrow> coord_member" where
  "read_coord pc k =
     (case pc k of
        Some c \<Rightarrow> Own c
      | None \<Rightarrow> if inherited k then Inherited else Undefined)"

fun member_x :: "coord_member \<Rightarrow> number" where
  "member_x (Own c) = Num (x_coord c)"
| "member_x Inherited = NaN"
| "member_x Undefined = NaN"

fun member_y :: "coord_member \<Rightarrow> number" where
  "member_y (Own c) = Num (y_coord c)"
| "member_y Inherited = NaN"
| "member_y Undefined = NaN"

text \<open>\<^verbatim>\<open>(a + b) / 2\<close> on JavaScript numbers.\<close>

fun half_sum :: "number \<Rightarrow> number \<Rightarrow> number" where
  "half_sum (Num a) (Num b) = Num ((a + b) / 2)"
| "half_sum NaN b = NaN"
| "half_sum a NaN = NaN"

text \<open>
  \<^verbatim>\<open>Object.values(tree.marriages).forEach\<close>: when both look-ups are truthy, the
  midpoint of the two is assigned under the marriage's identifier; under the identifier
  \<^verbatim>\<open>__proto__\<close> the assignment creates no own property.
\<close>

definition place_marriage :: "(string \<rightharpoonup> Coord) \<Rightarrow> Marriage \<Rightarrow> (string \<rightharpoonup> MarriageCoord) \<Rightarrow> (string \<rightharpoonup> MarriageCoord)" where
  "place_marriage pc m mc =
     (let p1 = read_coord pc (spouse1Id m);
          p2 = read_coord pc (spouse2Id m)
      in if p1 \<noteq> Undefined \<and> p2 \<noteq> Undefined
         then (if marriage_id m = ''__proto__'' then mc
               else mc(marriage_id m \<mapsto> \<lparr>x_mid = half_sum (member_x p1) (member_x p2),
                                            y_mid = half_sum (member_y p1) (member_y p2)\<rparr>))
         else mc)"

definition layout_of :: "FamilyTree \<Rightarrow> (string \<times> int) list \<Rightarrow> Layout" where
  "layout_of tree gns =
     (let pc = fold place_row (buckets tree gns) Map.empty;
          mc = fold (place_marriage pc) (map snd (marriages tree)) Map.empty
      in \<lparr>personCoords = pc, marriageCoords = mc, gens = gns\<rparr>)"

text \<open>
  The root is the first key of the person mapping; on an empty mapping the root is
  \<^verbatim>\<open>undefined\<close>, no key of the mapping, and the generation mapping is empty.
\<close>

definition layout :: "FamilyTree \<Rightarrow> Layout" where
  "layout tree =
     (case persons tree of
        [] \<Rightarrow> layout_of tree []
      | (rootId, p) # rest \<Rightarrow> layout_of tree (computeGenerations tree rootId))"

section \<open>Trees with one generation per marriage\<close>

text \<open>
  A levelling of a tree gives both spouses of every marriage the same number and a child
  of a marriage the number of its parents plus one. A child link belongs to the marriage
  stored under the link's marriage identifier (how the parents are found) and to every
  marriage carrying that identifier (how the children are found).
\<close>

definition levelled :: "FamilyTree \<Rightarrow> (string \<Rightarrow> int) \<Rightarrow> bool" where
  "levelled tree g \<longleftrightarrow>
     list_all (\<lambda>(k, m). g (spouse1Id m) = g (spouse2Id m)) (marriages tree)
     \<and> list_all (\<lambda>link.
          list_all (\<lambda>(k, m). (k = marriageId link \<or> marriage_id m = marriageId link)
                       \<longrightarrow> g (personId link) = g (spouse1Id m) + 1) (marriages tree))
        (children tree)"

text \<open>
  The invariant of the loop under a levelling: every level in the queue and in the
  generation mapping is the person's number relative to the start.
\<close>

definition gen_inv :: "(string \<Rightarrow> int) \<Rightarrow> string \<Rightarrow> bfs_state \<Rightarrow> bool" where
  "gen_inv g r s \<longleftrightarrow>
     (\<forall>(i, l) \<in> set (queue s). l = g i - g r)
     \<and> (\<forall>i l. map_of (generations s) i = Some l \<longrightarrow> l = g i - g r)"

section \<open>Paths between persons\<close>

text \<open>
  One step of a path: from a person to a spouse or a child of one of its marriages, or
  to a parent through one of its child links.
\<close>

definition linked :: "FamilyTree \<Rightarrow> string \<Rightarrow> string \<Rightarrow> bool" where
  "linked tree a b \<longleftrightarrow>
     list_ex (\<lambda>(k, m). (spouse1Id m = a \<or> spouse2Id m = a)
                \<and> (b = spouse1Id m \<or> b = spouse2Id m
                    \<or> b \<in> set (getChildrenOfMarriage tree (marriage_id m))))
       (marriages tree)
     \<or> list_ex (\<lambda>link. personId link = a
                  \<and> (case map_of (marriages tree) (marriageId link) of
                        None \<Rightarrow> False
                      | Some m \<Rightarrow> b = spouse1Id m \<or> b = spouse2Id m))
         (children tree)"

text \<open>The invariant of the loop: everything found has a path from the start.\<close>

definition reach_inv :: "FamilyTree \<Rightarrow> string \<Rightarrow> bfs_state \<Rightarrow> bool" where
  "reach_inv tree r s \<longleftrightarrow>
     (\<forall>(i, l) \<in> set (queue s). rtranclp (linked tree) r i)
     \<and> (\<forall>i \<in> fst ` set (generations s). rtranclp (linked tree) r i)"

text \<open>
  The generation mapping never has an own key \<^verbatim>\<open>__proto__\<close>: it starts empty and
  grows by assignments only.
\<close>

definition no_proto :: "bfs_state \<Rightarrow> bool" where
  "no_proto s \<longleftrightarrow> ''__proto__'' \<notin> fst ` set (generations s)"

section \<open>Rows\<close>

text \<open>
  The x-coordinate of the person at an index of a row of n persons, as the specification
  writes it: index times the spacing, minus half of the row's width.
\<close>

definition row_x :: "nat \<Rightarrow> nat \<Rightarrow> rat" where
  "row_x n idx = of_nat idx * HORIZONTAL_SPACING - (of_nat n - 1) * HORIZONTAL_SPACING / 2"

text \<open>
  The invariant of the buckets: the identifiers in the buckets are those of
  \<^verbatim>\<open>addedToLayout\<close>, each of them once, every generation has one bucket, and every
  identifier added is a key of the generation mapping.
\<close>

definition bucket_ids :: "(int \<times> string list) list \<Rightarrow> string list" where
  "bucket_ids pbg = concat (map snd pbg)"

definition bucket_ok :: "(string \<times> int) list \<Rightarrow> bucket_state \<Rightarrow> bool" where
  "bucket_ok gns st \<longleftrightarrow>
     set (bucket_ids (peopleByGen st)) = addedToLayout st
     \<and> distinct (bucket_ids (peopleByGen st))
     \<and> distinct (map fst (peopleByGen st))
     \<and> addedToLayout st \<subseteq> fst ` set gns"

definition spouse_inv :: "(string \<times> int) list \<Rightarrow> int \<Rightarrow> string set \<Rightarrow> bucket_state \<Rightarrow> bool" where
  "spouse_inv gns gen A st \<longleftrightarrow>
     bucket_ok gns st \<and> gen \<in> fst ` set (peopleByGen st) \<and> A \<subseteq> addedToLayout st"

section \<open>Example trees\<close>

definition mkPerson :: "string \<Rightarrow> Person" where
  "mkPerson i = \<lparr>person_id = i, name = i, gender = female, birthYear = None,
     deathYear = None, person_notes = None, external = None, email = None, phone = None\<rparr>"

definition mkMarriage :: "string \<Rightarrow> string \<Rightarrow> string \<Rightarrow> Marriage" where
  "mkMarriage i a b = \<lparr>marriage_id = i, spouse1Id = a, spouse2Id = b, marriageYear = None\<rparr>"

definition mkTree :: "string list \<Rightarrow> Marriage list \<Rightarrow> (string \<times> string) list \<Rightarrow> FamilyTree" where
  "mkTree ps ms cs =
     \<lparr>persons = map (\<lambda>i. (i, mkPerson i)) ps,
      marriages = map (\<lambda>m. (marriage_id m, m)) ms,
      children = map (\<lambda>(m, p). \<lparr>marriageId = m, personId = p\<rparr>) cs\<rparr>"

text \<open>
  The five-person family of the specification: R married to S with child C, C married
  to D with child E.
\<close>

definition family5 :: FamilyTree where
  "family5 = mkTree [''R'', ''S'', ''C'', ''D'', ''E'']
     [mkMarriage ''m1'' ''R'' ''S'', mkMarriage ''m2'' ''C'' ''D'']
     [(''m1'', ''C''), (''m2'', ''E'')]"

text \<open>
  A tree whose only marriage names a spouse that is no key of the person mapping.
\<close>

definition dangling :: FamilyTree where
  "dangling = mkTree [''R''] [mkMarriage ''m1'' ''R'' ''S''] []"

text \<open>
  A tree with a marriage across generations: R is married to A and is a child of B and
  X, and A is married to B as well.
\<close>

definition cross :: FamilyTree where
  "cross = mkTree [''R'', ''A'', ''B'', ''X'']
     [mkMarriage ''m1'' ''R'' ''A'', mkMarriage ''m0'' ''B'' ''X'', mkMarriage ''m2'' ''A'' ''B'']
     [(''m0'', ''R'')]"

text \<open>A tree of two couples without a link between them.\<close>

definition apart :: FamilyTree where
  "apart = mkTree [''R'', ''S'', ''P'', ''Q'']
     [mkMarriage ''m1'' ''R'' ''S'', mkMarriage ''m9'' ''P'' ''Q''] []"

text \<open>
  A tree whose marriage has the identifier \<^verbatim>\<open>toString\<close>, with one child.
\<close>

definition inheritedLink :: FamilyTree where
  "inheritedLink = mkTree [''R'', ''S'', ''C'']
     [mkMarriage ''toString'' ''R'' ''S''] [(''toString'', ''C'')]"

text \<open>
  A tree with one person and a marriage whose spouses are \<^verbatim>\<open>toString\<close> and
  \<^verbatim>\<open>valueOf\<close>, no persons of the tree.
\<close>

definition inheritedSpouses :: FamilyTree where
  "inheritedSpouses = mkTree [''R''] [mkMarriage ''m1'' ''toString'' ''valueOf''] []"


text \<open>A levelling of the five-person family.\<close>

definition family5_level :: "string \<Rightarrow> int" where
  "family5_level p =
     (if p = ''R'' \<or> p = ''S'' then 0 else if p = ''C'' \<or> p = ''D'' then 1 else 2)"

section \<open>Facts about the property order\<close>

lemma set_js_insert: "set (js_insert ix k v obj) = insert (k, v) (set obj)"
  by (induction obj) (auto split: option.splits if_splits)

lemma map_of_js_insert:
  "map_of obj k = None \<Longrightarrow> map_of (js_insert ix k v obj) = (map_of obj)(k \<mapsto> v)"
  by (induction obj) (auto split: option.splits if_splits)

lemma map_of_js_update:
  "map_of obj k \<noteq> None \<Longrightarrow> map_of (js_update k v obj) = (map_of obj)(k \<mapsto> v)"
  by (induction obj) (auto split: option.splits if_splits)

lemma map_of_js_set: "map_of (js_set ix k v obj) = (map_of obj)(k \<mapsto> v)"
  by (simp add: js_set_def map_of_js_insert map_of_js_update)

lemma keys_js_set: "fst ` set (js_set ix k v obj) = insert k (fst ` set obj)"
proof -
  have "dom (map_of (js_set ix k v obj)) = insert k (dom (map_of obj))"
    by (simp add: map_of_js_set)
  then show ?thesis by (simp add: dom_map_of_conv_image_fst)
qed

lemma map_of_js_assign:
  "map_of (js_assign k v obj)
   = (if k = ''__proto__'' then map_of obj else (map_of obj)(k \<mapsto> v))"
  by (simp add: js_assign_def map_of_js_set)

lemma keys_js_assign:
  "fst ` set (js_assign k v obj)
   = (if k = ''__proto__'' then fst ` set obj else insert k (fst ` set obj))"
  by (simp add: js_assign_def keys_js_set)

lemma inherited_proto: "inherited ''__proto__''"
  by (simp add: inherited_def object_prototype_names_def)

lemma has_member_iff: "has_member obj k \<longleftrightarrow> k \<in> fst ` set obj \<or> inherited k"
proof (cases "map_of obj k")
  case None
  then have "k \<notin> fst ` set obj" by (simp add: map_of_eq_None_iff)
  with None show ?thesis by (simp add: has_member_def)
next
  case (Some v)
  then have "k \<in> fst ` set obj" by (metis map_of_eq_None_iff option.distinct(1))
  with Some show ?thesis by (simp add: has_member_def)
qed

section \<open>The loop of computeGenerations\<close>

lemma bfs_loop_invariant:
  "P s \<Longrightarrow> (\<And>s. P s \<Longrightarrow> queue s \<noteq> [] \<Longrightarrow> P (bfs_step tree s))
     \<Longrightarrow> P (bfs_loop tree s)"
proof (induction tree s rule: bfs_loop.induct)
  case (1 tree s)
  show ?case
  proof (cases "queue s = []")
    case True
    with "1.prems"(1) show ?thesis by (simp add: bfs_loop.simps)
  next
    case False
    with "1.prems" have "P (bfs_step tree s)" by blast
    with False "1.IH" "1.prems"(2) show ?thesis by (simp add: bfs_loop.simps [of tree s])
  qed
qed

lemma fold_invariant:
  assumes "P s" and "\<And>x s. x \<in> set xs \<Longrightarrow> P s \<Longrightarrow> P (f x s)"
  shows "P (fold f xs s)"
  using assms by (induction xs arbitrary: s) simp_all

lemma bfs_loop_iterations:
  "\<exists>n \<le> bfs_measure tree s.
     queue ((bfs_step tree ^^ n) s) = [] \<and> bfs_loop tree s = (bfs_step tree ^^ n) s"
proof (induction tree s rule: bfs_loop.induct)
  case (1 tree s)
  show ?case
  proof (cases "queue s = []")
    case True
    then have "queue ((bfs_step tree ^^ 0) s) = [] \<and> bfs_loop tree s = (bfs_step tree ^^ 0) s"
      by (simp add: bfs_loop.simps)
    then show ?thesis by blast
  next
    case False
    from "1.IH" [OF False] obtain n where n: "n \<le> bfs_measure tree (bfs_step tree s)"
      "queue ((bfs_step tree ^^ n) (bfs_step tree s)) = []"
      "bfs_loop tree (bfs_step tree s) = (bfs_step tree ^^ n) (bfs_step tree s)"
      by blast
    have "Suc n \<le> bfs_measure tree s"
      using n(1) bfs_step_measure [OF False, of tree] by simp
    moreover have "queue ((bfs_step tree ^^ Suc n) s) = []"
      using n(2) by (simp add: funpow_swap1)
    moreover have "bfs_loop tree s = (bfs_step tree ^^ Suc n) s"
      using n(3) False by (simp add: funpow_swap1 bfs_loop.simps [of tree s])
    ultimately show ?thesis by blast
  qed
qed

lemma bfs_init_measure:
  assumes "startId \<in> set (tree_ids tree)"
  shows "bfs_measure tree (bfs_init startId) = card (set (tree_ids tree))"
proof -
  have "card (set (tree_ids tree) - {startId}) = card (set (tree_ids tree)) - 1"
    using assms by simp
  moreover have "0 < card (set (tree_ids tree))"
    using assms by (auto simp: card_gt_0_iff)
  ultimately show ?thesis
    by (simp add: bfs_measure_def bfs_init_def)
qed

lemma person_key_in_tree_ids:
  "k \<in> fst ` set (persons tree) \<Longrightarrow> k \<in> set (tree_ids tree)"
  by (auto simp: tree_ids_def)

lemma family5_generations:
  "computeGenerations family5 ''R''
   = [(''R'', 0), (''S'', 0), (''C'', 1), (''D'', 1), (''E'', 2)]"
  by (simp add: computeGenerations_def has_member_def family5_def mkTree_def mkMarriage_def bfs_init_def
      bfs_step_def bfs_loop.simps visit_parents_def visit_parent_def visit_marriage_def
      visit_child_def enqueue_def js_assign_def js_set_def array_index_def digit_def
      getChildrenOfMarriage_def Let_def)

text \<open>
  C3. On the five-person family, from R: R and S in generation 0, C and D in generation
  1, E in generation 2, and no other entry.
\<close>

theorem computeGenerations_family5:
  "computeGenerations family5 ''R''
   = [(''R'', 0), (''S'', 0), (''C'', 1), (''D'', 1), (''E'', 2)]"
  by (rule family5_generations)

lemma computeGenerations_absent:
  "startId \<notin> fst ` set (persons T) \<Longrightarrow> \<not> inherited startId \<Longrightarrow>
     computeGenerations T startId = []"
  by (simp add: computeGenerations_def has_member_iff)

text \<open>
  C6. The claim fails in the code for a start identifier that names a member of
  \<^verbatim>\<open>Object.prototype\<close>: \<^verbatim>\<open>toString\<close> is no key of the person mapping of the
  five-person family, the guard \<^verbatim>\<open>!tree.persons[startId]\<close> finds the inherited function
  and lets it through, and the generation mapping has the entry toString: 0.
\<close>

theorem computeGenerations_inherited_root:
  "''toString'' \<notin> fst ` set (persons family5)
   \<and> computeGenerations family5 ''toString'' = [(''toString'', 0)]"
  by (simp add: computeGenerations_def has_member_def inherited_def
      object_prototype_names_def family5_def mkTree_def mkMarriage_def bfs_init_def
      bfs_step_def bfs_loop.simps visit_parents_def visit_parent_def visit_marriage_def
      visit_child_def enqueue_def js_assign_def js_set_def array_index_def digit_def
      getChildrenOfMarriage_def Let_def)

text \<open>
  C5, against the claim. The tree \<open>dangling\<close> has one person, and the queue is not
  empty after one iteration of the loop: the spouse S, which is no person of the tree, is
  visited in a second iteration.
\<close>

theorem iterations_exceed_persons:
  "length (persons dangling) = 1
   \<and> queue ((bfs_step dangling ^^ 0) (bfs_init ''R'')) \<noteq> []
   \<and> queue ((bfs_step dangling ^^ 1) (bfs_init ''R'')) = [(''S'', 0)]
   \<and> queue ((bfs_step dangling ^^ 2) (bfs_init ''R'')) = []"
  by (simp add: dangling_def mkTree_def mkMarriage_def bfs_init_def numeral_2_eq_2
      bfs_step_def visit_parents_def visit_parent_def visit_marriage_def
      visit_child_def enqueue_def js_assign_def js_set_def array_index_def digit_def
      getChildrenOfMarriage_def Let_def)

lemma bfs_init_measure_le:
  "bfs_measure tree (bfs_init startId) \<le> card (insert startId (set (tree_ids tree)))"
  by (simp add: bfs_measure_def bfs_init_def card.insert_remove)

text \<open>
  C5, amended. For every tree and every start identifier, the loop of
  \<open>computeGenerations\<close> ends after at most as many iterations as there are distinct
  identifiers among the start identifier and those of the tree (keys of the person
  mapping, spouses of marriages, persons of child links), whatever cycles the marriages
  and child links form: after n iterations the queue is empty, and the result is the
  generation mapping of that state when the guard lets the start identifier through,
  and empty otherwise. When the start identifier and every identifier of the tree is a
  key of the person mapping, n is at most the number of persons.
\<close>

theorem computeGenerations_terminates:
  "\<exists>n. n \<le> card (insert startId (set (tree_ids T)))
    \<and> (insert startId (set (tree_ids T)) \<subseteq> fst ` set (persons T) \<longrightarrow> n \<le> length (persons T))
    \<and> queue ((bfs_step T ^^ n) (bfs_init startId)) = []
    \<and> computeGenerations T startId
      = (if has_member (persons T) startId
         then generations ((bfs_step T ^^ n) (bfs_init startId)) else [])"
proof -
  from bfs_loop_iterations [of T "bfs_init startId"]
  obtain n where n: "n \<le> bfs_measure T (bfs_init startId)"
    "queue ((bfs_step T ^^ n) (bfs_init startId)) = []"
    "bfs_loop T (bfs_init startId) = (bfs_step T ^^ n) (bfs_init startId)"
    by blast
  have bound: "n \<le> card (insert startId (set (tree_ids T)))"
    using n(1) bfs_init_measure_le [of T startId] by simp
  have "n \<le> length (persons T)" if "insert startId (set (tree_ids T)) \<subseteq> fst ` set (persons T)"
  proof -
    have "card (insert startId (set (tree_ids T))) \<le> card (fst ` set (persons T))"
      using that by (intro card_mono) simp_all
    also have "\<dots> \<le> card (set (persons T))" by (rule card_image_le) simp
    also have "\<dots> \<le> length (persons T)" by (rule card_length)
    finally show ?thesis using bound by simp
  qed
  moreover have "computeGenerations T startId
      = (if has_member (persons T) startId
         then generations ((bfs_step T ^^ n) (bfs_init startId)) else [])"
    using n(3) by (simp add: computeGenerations_def)
  ultimately show ?thesis using bound n(2) by blast
qed

theorem computeGenerations_terminates_witness:
  "(\<exists>n. n \<le> card (insert ''R'' (set (tree_ids family5)))
        \<and> (insert ''R'' (set (tree_ids family5)) \<subseteq> fst ` set (persons family5)
             \<longrightarrow> n \<le> length (persons family5))
        \<and> queue ((bfs_step family5 ^^ n) (bfs_init ''R'')) = []
        \<and> computeGenerations family5 ''R''
          = (if has_member (persons family5) ''R''
             then generations ((bfs_step family5 ^^ n) (bfs_init ''R'')) else []))
   \<and> insert ''R'' (set (tree_ids family5)) \<subseteq> fst ` set (persons family5)
   \<and> has_member (persons family5) ''R''
   \<and> length (persons family5) = 5"
proof -
  have c: "insert ''R'' (set (tree_ids family5)) \<subseteq> fst ` set (persons family5)"
    by (simp add: family5_def mkTree_def mkMarriage_def tree_ids_def)
  have h: "has_member (persons family5) ''R''"
    by (simp add: has_member_def family5_def mkTree_def)
  have l: "length (persons family5) = 5"
    by (simp add: family5_def mkTree_def)
  show ?thesis
    using c h l computeGenerations_terminates [of "''R''" family5] by blast
qed

section \<open>Generations of spouses\<close>

lemma levelled_spouses:
  "levelled tree g \<Longrightarrow> (k, m) \<in> set (marriages tree) \<Longrightarrow> g (spouse1Id m) = g (spouse2Id m)"
  by (auto simp: levelled_def list_all_iff)

lemma levelled_child:
  "levelled tree g \<Longrightarrow> (k, m) \<in> set (marriages tree) \<Longrightarrow> link \<in> set (children tree) \<Longrightarrow>
     k = marriageId link \<or> marriage_id m = marriageId link \<Longrightarrow>
     g (personId link) = g (spouse1Id m) + 1"
  by (fastforce simp: levelled_def list_all_iff)

lemma enqueue_gen_inv:
  "gen_inv g r s \<Longrightarrow> l = g i - g r \<Longrightarrow> gen_inv g r (enqueue i l s)"
  by (auto simp: gen_inv_def enqueue_def map_of_js_assign split: if_splits)

lemma visit_marriage_gen_inv:
  assumes lev: "levelled tree g" and m: "(k, m) \<in> set (marriages tree)"
    and sp: "spouse1Id m = i \<or> spouse2Id m = i" and l: "level = g i - g r"
    and inv: "gen_inv g r s"
  shows "gen_inv g r (visit_marriage tree i level m s)"
proof -
  have eq: "g (spouse1Id m) = g (spouse2Id m)" using lev m by (rule levelled_spouses)
  have gi: "g (spouse1Id m) = g i" "g (spouse2Id m) = g i" using sp eq by auto
  let ?sp = "if spouse1Id m = i then spouse2Id m else spouse1Id m"
  have "g ?sp = g i" using gi by simp
  then have s1: "gen_inv g r (if ?sp \<noteq> [] \<and> ?sp \<notin> visited s then enqueue ?sp level s else s)"
    using inv l by (simp add: enqueue_gen_inv)
  have ch: "gen_inv g r (visit_child level c st)"
    if "c \<in> set (getChildrenOfMarriage tree (marriage_id m))" and "gen_inv g r st" for c st
  proof -
    from that(1) obtain link where "link \<in> set (children tree)"
      "marriageId link = marriage_id m" "personId link = c"
      by (auto simp: getChildrenOfMarriage_def)
    then have "g c = g (spouse1Id m) + 1"
      using levelled_child [OF lev m, of link] by simp
    then show ?thesis using that(2) l gi
      by (simp add: visit_child_def enqueue_gen_inv)
  qed
  show ?thesis
    unfolding visit_marriage_def Let_def
    by (rule fold_invariant [where P = "gen_inv g r"]) (use s1 ch in auto)
qed

lemma visit_parents_gen_inv:
  assumes lev: "levelled tree g" and l: "level = g i - g r" and inv: "gen_inv g r s"
  shows "gen_inv g r (visit_parents tree i level s)"
proof (cases "find (\<lambda>link. personId link = i) (children tree)")
  case None
  with inv show ?thesis by (simp add: visit_parents_def)
next
  case (Some link)
  then have link: "link \<in> set (children tree)" "personId link = i"
    by (auto simp: find_Some_iff)
  show ?thesis
  proof (cases "map_of (marriages tree) (marriageId link)")
    case None
    with Some inv show ?thesis by (simp add: visit_parents_def)
  next
    case m: (Some marriage)
    then have mem: "(marriageId link, marriage) \<in> set (marriages tree)"
      by (rule map_of_SomeD)
    have c: "g i = g (spouse1Id marriage) + 1"
      using levelled_child [OF lev mem link(1)] link(2) by simp
    have e: "g (spouse1Id marriage) = g (spouse2Id marriage)"
      using lev mem by (rule levelled_spouses)
    have par: "gen_inv g r (visit_parent level p st)"
      if "p \<in> set [spouse1Id marriage, spouse2Id marriage]" and "gen_inv g r st" for p st
      using that c e l by (auto simp: visit_parent_def enqueue_gen_inv)
    have "gen_inv g r (fold (visit_parent level) [spouse1Id marriage, spouse2Id marriage] s)"
      by (rule fold_invariant [where P = "gen_inv g r"]) (use inv par in auto)
    with Some m show ?thesis by (simp add: visit_parents_def)
  qed
qed

lemma bfs_step_gen_inv:
  assumes lev: "levelled tree g" and inv: "gen_inv g r s"
  shows "gen_inv g r (bfs_step tree s)"
proof (cases "queue s")
  case Nil
  with inv show ?thesis by (simp add: bfs_step_def)
next
  case (Cons a rest)
  obtain i level where a: "a = (i, level)" by (cases a)
  have l: "level = g i - g r" using inv Cons a by (auto simp: gen_inv_def)
  have inv': "gen_inv g r (s\<lparr>queue := rest\<rparr>)" using inv Cons by (auto simp: gen_inv_def)
  let ?ms = "filter (\<lambda>m. spouse1Id m = i \<or> spouse2Id m = i) (map snd (marriages tree))"
  have "gen_inv g r (fold (visit_marriage tree i level) ?ms (s\<lparr>queue := rest\<rparr>))"
  proof (rule fold_invariant [where P = "gen_inv g r"])
    show "gen_inv g r (s\<lparr>queue := rest\<rparr>)" by (rule inv')
  next
    fix m st assume m: "m \<in> set ?ms" and st: "gen_inv g r st"
    then obtain k where "(k, m) \<in> set (marriages tree)" "spouse1Id m = i \<or> spouse2Id m = i"
      by auto
    then show "gen_inv g r (visit_marriage tree i level m st)"
      using lev l st by (intro visit_marriage_gen_inv)
  qed
  then have "gen_inv g r (visit_parents tree i level (fold (visit_marriage tree i level) ?ms (s\<lparr>queue := rest\<rparr>)))"
    using lev l by (intro visit_parents_gen_inv)
  then show ?thesis by (simp add: bfs_step_def Cons a Let_def)
qed

lemma computeGenerations_levelled:
  assumes lev: "levelled tree g" and g: "map_of (computeGenerations tree startId) i = Some l"
  shows "l = g i - g startId"
proof (cases "has_member (persons tree) startId")
  case False
  with g show ?thesis by (simp add: computeGenerations_def)
next
  case True
  have "gen_inv g startId (bfs_init startId)"
    by (simp add: gen_inv_def bfs_init_def map_of_js_assign)
  then have "gen_inv g startId (bfs_loop tree (bfs_init startId))"
    by (rule bfs_loop_invariant) (rule bfs_step_gen_inv [OF lev])
  with g True show ?thesis by (simp add: computeGenerations_def gen_inv_def)
qed

lemma cross_generations:
  "computeGenerations cross ''R'' = [(''R'', 0), (''A'', 0), (''B'', -1), (''X'', -1)]"
  by (simp add: computeGenerations_def has_member_def cross_def mkTree_def mkMarriage_def bfs_init_def
      bfs_step_def bfs_loop.simps visit_parents_def visit_parent_def visit_marriage_def
      visit_child_def enqueue_def js_assign_def js_set_def array_index_def digit_def
      getChildrenOfMarriage_def Let_def)

text \<open>
  C2, against the claim. In the tree \<open>cross\<close>, started at R, the spouse A of R gets
  generation 0 and the parent B of R gets generation -1 in the same iteration; A and B
  are the spouses of marriage m2 and both are in the mapping, with different generations.
\<close>

theorem spouses_differ_cross:
  "(''m2'', mkMarriage ''m2'' ''A'' ''B'') \<in> set (marriages cross)
   \<and> spouse1Id (mkMarriage ''m2'' ''A'' ''B'') = ''A''
   \<and> spouse2Id (mkMarriage ''m2'' ''A'' ''B'') = ''B''
   \<and> map_of (computeGenerations cross ''R'') ''A'' = Some 0
   \<and> map_of (computeGenerations cross ''R'') ''B'' = Some (- 1)"
  by (simp add: cross_generations) (simp add: cross_def mkTree_def mkMarriage_def)

text \<open>
  C2, amended. In a tree with a levelling g, every person of the generation mapping gets
  its number relative to the start, so that the two spouses of a marriage, when both are
  in the mapping, have equal generations.
\<close>

theorem spouses_share_generation:
  assumes "levelled T g" and "(k, m) \<in> set (marriages T)"
    and "map_of (computeGenerations T startId) (spouse1Id m) = Some a"
    and "map_of (computeGenerations T startId) (spouse2Id m) = Some b"
  shows "a = b \<and> a = g (spouse1Id m) - g startId"
proof -
  have a: "a = g (spouse1Id m) - g startId"
    using assms(1,3) by (rule computeGenerations_levelled)
  have b: "b = g (spouse2Id m) - g startId"
    using assms(1,4) by (rule computeGenerations_levelled)
  have "g (spouse1Id m) = g (spouse2Id m)"
    using assms(1,2) by (rule levelled_spouses)
  with a b show ?thesis by simp
qed

theorem spouses_share_generation_witness:
  "levelled family5 family5_level
   \<and> (''m2'', mkMarriage ''m2'' ''C'' ''D'') \<in> set (marriages family5)
   \<and> map_of (computeGenerations family5 ''R'') (spouse1Id (mkMarriage ''m2'' ''C'' ''D'')) = Some 1
   \<and> map_of (computeGenerations family5 ''R'') (spouse2Id (mkMarriage ''m2'' ''C'' ''D'')) = Some 1
   \<and> (1::int) = family5_level (spouse1Id (mkMarriage ''m2'' ''C'' ''D'')) - family5_level ''R''"
proof -
  have l: "levelled family5 family5_level"
    by (simp add: levelled_def family5_def mkTree_def mkMarriage_def family5_level_def)
  have m: "(''m2'', mkMarriage ''m2'' ''C'' ''D'') \<in> set (marriages family5)"
    by (simp add: family5_def mkTree_def mkMarriage_def)
  have a: "map_of (computeGenerations family5 ''R'') (spouse1Id (mkMarriage ''m2'' ''C'' ''D'')) = Some 1"
    by (simp add: family5_generations mkMarriage_def)
  have b: "map_of (computeGenerations family5 ''R'') (spouse2Id (mkMarriage ''m2'' ''C'' ''D'')) = Some 1"
    by (simp add: family5_generations mkMarriage_def)
  show ?thesis
    using l m a b spouses_share_generation [OF l m a b] by blast
qed

section \<open>Persons without a path from the start\<close>

lemma enqueue_reach_inv:
  "reach_inv tree r s \<Longrightarrow> rtranclp (linked tree) r i \<Longrightarrow> reach_inv tree r (enqueue i l s)"
  by (auto simp: reach_inv_def enqueue_def keys_js_assign split: if_splits)

lemma linked_spouse:
  "(k, m) \<in> set (marriages tree) \<Longrightarrow> spouse1Id m = a \<or> spouse2Id m = a \<Longrightarrow>
     b = spouse1Id m \<or> b = spouse2Id m \<or> b \<in> set (getChildrenOfMarriage tree (marriage_id m)) \<Longrightarrow>
     linked tree a b"
  unfolding linked_def list_ex_iff by blast

lemma linked_parent:
  "link \<in> set (children tree) \<Longrightarrow> personId link = a \<Longrightarrow>
     map_of (marriages tree) (marriageId link) = Some m \<Longrightarrow>
     b = spouse1Id m \<or> b = spouse2Id m \<Longrightarrow> linked tree a b"
  unfolding linked_def list_ex_iff by force

lemma visit_marriage_reach_inv:
  assumes m: "(k, m) \<in> set (marriages tree)" and sp: "spouse1Id m = i \<or> spouse2Id m = i"
    and i: "rtranclp (linked tree) r i" and inv: "reach_inv tree r s"
  shows "reach_inv tree r (visit_marriage tree i level m s)"
proof -
  have step: "rtranclp (linked tree) r b"
    if "b = spouse1Id m \<or> b = spouse2Id m \<or> b \<in> set (getChildrenOfMarriage tree (marriage_id m))" for b
    using i linked_spouse [OF m sp that] by (rule rtranclp.rtrancl_into_rtrancl)
  let ?sp = "if spouse1Id m = i then spouse2Id m else spouse1Id m"
  have "rtranclp (linked tree) r ?sp" by (rule step) simp
  then have s1: "reach_inv tree r (if ?sp \<noteq> [] \<and> ?sp \<notin> visited s then enqueue ?sp level s else s)"
    using inv by (simp add: enqueue_reach_inv)
  have ch: "reach_inv tree r (visit_child level c st)"
    if "c \<in> set (getChildrenOfMarriage tree (marriage_id m))" and "reach_inv tree r st" for c st
    using that step [of c] by (simp add: visit_child_def enqueue_reach_inv)
  show ?thesis
    unfolding visit_marriage_def Let_def
    by (rule fold_invariant [where P = "reach_inv tree r"]) (use s1 ch in auto)
qed

lemma visit_parents_reach_inv:
  assumes i: "rtranclp (linked tree) r i" and inv: "reach_inv tree r s"
  shows "reach_inv tree r (visit_parents tree i level s)"
proof (cases "find (\<lambda>link. personId link = i) (children tree)")
  case None
  with inv show ?thesis by (simp add: visit_parents_def)
next
  case (Some link)
  then have link: "link \<in> set (children tree)" "personId link = i"
    by (auto simp: find_Some_iff)
  show ?thesis
  proof (cases "map_of (marriages tree) (marriageId link)")
    case None
    with Some inv show ?thesis by (simp add: visit_parents_def)
  next
    case m: (Some marriage)
    have step: "rtranclp (linked tree) r p"
      if "p = spouse1Id marriage \<or> p = spouse2Id marriage" for p
      using i linked_parent [OF link m that] by (rule rtranclp.rtrancl_into_rtrancl)
    have par: "reach_inv tree r (visit_parent level p st)"
      if "p \<in> set [spouse1Id marriage, spouse2Id marriage]" and "reach_inv tree r st" for p st
      using that step [of p] by (auto simp: visit_parent_def enqueue_reach_inv)
    have "reach_inv tree r (fold (visit_parent level) [spouse1Id marriage, spouse2Id marriage] s)"
      by (rule fold_invariant [where P = "reach_inv tree r"]) (use inv par in auto)
    with Some m show ?thesis by (simp add: visit_parents_def)
  qed
qed

lemma bfs_step_reach_inv:
  assumes inv: "reach_inv tree r s"
  shows "reach_inv tree r (bfs_step tree s)"
proof (cases "queue s")
  case Nil
  with inv show ?thesis by (simp add: bfs_step_def)
next
  case (Cons a rest)
  obtain i level where a: "a = (i, level)" by (cases a)
  have i: "rtranclp (linked tree) r i" using inv Cons a by (auto simp: reach_inv_def)
  have inv': "reach_inv tree r (s\<lparr>queue := rest\<rparr>)" using inv Cons by (auto simp: reach_inv_def)
  let ?ms = "filter (\<lambda>m. spouse1Id m = i \<or> spouse2Id m = i) (map snd (marriages tree))"
  have "reach_inv tree r (fold (visit_marriage tree i level) ?ms (s\<lparr>queue := rest\<rparr>))"
  proof (rule fold_invariant [where P = "reach_inv tree r"])
    show "reach_inv tree r (s\<lparr>queue := rest\<rparr>)" by (rule inv')
  next
    fix m st assume m: "m \<in> set ?ms" and st: "reach_inv tree r st"
    then obtain k where "(k, m) \<in> set (marriages tree)" "spouse1Id m = i \<or> spouse2Id m = i"
      by auto
    then show "reach_inv tree r (visit_marriage tree i level m st)"
      using i st by (intro visit_marriage_reach_inv)
  qed
  then have "reach_inv tree r (visit_parents tree i level (fold (visit_marriage tree i level) ?ms (s\<lparr>queue := rest\<rparr>)))"
    using i by (intro visit_parents_reach_inv)
  then show ?thesis by (simp add: bfs_step_def Cons a Let_def)
qed

lemma computeGenerations_reachable:
  assumes "p \<in> fst ` set (computeGenerations tree startId)"
  shows "rtranclp (linked tree) startId p"
proof (cases "has_member (persons tree) startId")
  case False
  with assms show ?thesis by (simp add: computeGenerations_def)
next
  case True
  have "reach_inv tree startId (bfs_init startId)"
    by (simp add: reach_inv_def bfs_init_def keys_js_assign)
  then have "reach_inv tree startId (bfs_loop tree (bfs_init startId))"
    by (rule bfs_loop_invariant) (rule bfs_step_reach_inv)
  with assms True show ?thesis by (auto simp: computeGenerations_def reach_inv_def)
qed

section \<open>The keys of the generation mapping\<close>

lemma enqueue_no_proto: "no_proto s \<Longrightarrow> no_proto (enqueue i l s)"
  by (simp add: no_proto_def enqueue_def keys_js_assign)

lemma visit_child_no_proto: "no_proto s \<Longrightarrow> no_proto (visit_child level c s)"
  by (simp add: visit_child_def enqueue_no_proto)

lemma visit_parent_no_proto: "no_proto s \<Longrightarrow> no_proto (visit_parent level p s)"
  by (simp add: visit_parent_def enqueue_no_proto)

lemma visit_marriage_no_proto:
  assumes "no_proto s"
  shows "no_proto (visit_marriage tree i level m s)"
  unfolding visit_marriage_def Let_def
  by (rule fold_invariant [where P = no_proto])
     (use assms in \<open>auto simp: enqueue_no_proto visit_child_no_proto\<close>)

lemma visit_parents_no_proto:
  assumes "no_proto s"
  shows "no_proto (visit_parents tree i level s)"
  using assms by (simp add: visit_parents_def visit_parent_no_proto split: option.splits)

lemma bfs_step_no_proto:
  assumes "no_proto s"
  shows "no_proto (bfs_step tree s)"
proof (cases "queue s")
  case Nil
  with assms show ?thesis by (simp add: bfs_step_def)
next
  case (Cons a rest)
  obtain i level where a: "a = (i, level)" by (cases a)
  have "no_proto (s\<lparr>queue := rest\<rparr>)" using assms by (simp add: no_proto_def)
  then have "no_proto (fold (visit_marriage tree i level) ms (s\<lparr>queue := rest\<rparr>))" for ms
    by (rule fold_invariant) (rule visit_marriage_no_proto)
  then show ?thesis
    by (simp add: bfs_step_def Cons a Let_def visit_parents_no_proto)
qed

lemma computeGenerations_no_proto:
  "''__proto__'' \<notin> fst ` set (computeGenerations tree startId)"
proof (cases "has_member (persons tree) startId")
  case False
  then show ?thesis by (simp add: computeGenerations_def)
next
  case True
  have "no_proto (bfs_init startId)"
    by (simp add: no_proto_def bfs_init_def keys_js_assign)
  then have "no_proto (bfs_loop tree (bfs_init startId))"
    by (rule bfs_loop_invariant) (rule bfs_step_no_proto)
  with True show ?thesis by (simp add: computeGenerations_def no_proto_def)
qed

section \<open>Placing rows and marriages\<close>

lemma place_person_apply:
  "place_person y w (idx, i) pc
   = (if i = ''__proto__'' then pc
      else pc(i \<mapsto> \<lparr>x_coord = of_nat idx * HORIZONTAL_SPACING - w / 2, y_coord = y\<rparr>))"
  by (simp add: place_person_def)

lemma fold_place_person_other:
  "i \<notin> set ids \<Longrightarrow> fold (place_person y w) (enumerate n ids) pc i = pc i"
  by (induction ids arbitrary: n pc) (auto simp: place_person_apply)

lemma fold_place_person_dom:
  "dom (fold (place_person y w) (enumerate n ids) pc) = dom pc \<union> (set ids - {''__proto__''})"
  by (induction ids arbitrary: n pc) (auto simp: place_person_apply)

lemma fold_place_person_lookup:
  "distinct ids \<Longrightarrow> idx < length ids \<Longrightarrow> ids ! idx \<noteq> ''__proto__'' \<Longrightarrow>
     fold (place_person y w) (enumerate n ids) pc (ids ! idx)
     = Some \<lparr>x_coord = of_nat (n + idx) * HORIZONTAL_SPACING - w / 2, y_coord = y\<rparr>"
proof (induction ids arbitrary: n pc idx)
  case Nil
  then show ?case by simp
next
  case (Cons a ids)
  show ?case
  proof (cases idx)
    case 0
    have "fold (place_person y w) (enumerate (Suc n) ids) (place_person y w (n, a) pc) a
          = place_person y w (n, a) pc a"
      using Cons.prems(1) by (intro fold_place_person_other) simp
    then show ?thesis using 0 Cons.prems(3) by (simp add: place_person_apply)
  next
    case (Suc j)
    with Cons.prems Cons.IH [of j "Suc n"] show ?thesis by simp
  qed
qed

lemma place_row_dom:
  "dom (place_row (g, ids) pc) = dom pc \<union> (set ids - {''__proto__''})"
  by (simp add: place_row_def Let_def fold_place_person_dom)

lemma place_row_other: "i \<notin> set ids \<Longrightarrow> place_row (g, ids) pc i = pc i"
  by (simp add: place_row_def Let_def fold_place_person_other)

lemma place_row_lookup:
  "distinct ids \<Longrightarrow> idx < length ids \<Longrightarrow> ids ! idx \<noteq> ''__proto__'' \<Longrightarrow>
     place_row (g, ids) pc (ids ! idx)
     = Some \<lparr>x_coord = of_nat idx * HORIZONTAL_SPACING
                        - (of_nat (length ids) - 1) * HORIZONTAL_SPACING / 2,
             y_coord = of_int g * VERTICAL_SPACING\<rparr>"
  by (simp add: place_row_def Let_def fold_place_person_lookup)

lemma fold_place_row_dom:
  "dom (fold place_row pbg pc) = dom pc \<union> (set (concat (map snd pbg)) - {''__proto__''})"
proof (induction pbg arbitrary: pc)
  case Nil
  show ?case by simp
next
  case (Cons b pbg)
  obtain g ids where "b = (g, ids)" by (cases b)
  then show ?case by (auto simp: Cons.IH place_row_dom)
qed

lemma fold_place_row_other:
  "i \<notin> set (concat (map snd pbg)) \<Longrightarrow> fold place_row pbg pc i = pc i"
  by (induction pbg arbitrary: pc) (auto simp: place_row_other)

lemma fold_place_row_lookup:
  "distinct (concat (map snd pbg)) \<Longrightarrow> (g, ids) \<in> set pbg \<Longrightarrow> idx < length ids \<Longrightarrow>
     ids ! idx \<noteq> ''__proto__'' \<Longrightarrow>
     fold place_row pbg pc (ids ! idx)
     = Some \<lparr>x_coord = of_nat idx * HORIZONTAL_SPACING
                        - (of_nat (length ids) - 1) * HORIZONTAL_SPACING / 2,
             y_coord = of_int g * VERTICAL_SPACING\<rparr>"
proof (induction pbg arbitrary: pc)
  case Nil
  then show ?case by simp
next
  case (Cons b pbg)
  obtain g' ids' where b: "b = (g', ids')" by (cases b)
  show ?case
  proof (cases "(g, ids) = b")
    case True
    have "ids ! idx \<in> set ids" using Cons.prems(3) by simp
    then have "ids ! idx \<notin> set (concat (map snd pbg))"
      using Cons.prems(1) True by auto
    then have "fold place_row pbg (place_row b pc) (ids ! idx) = place_row b pc (ids ! idx)"
      by (rule fold_place_row_other)
    moreover have "distinct ids" using Cons.prems(1) True by auto
    ultimately show ?thesis
      using True [symmetric] Cons.prems(3,4) by (simp add: place_row_lookup)
  next
    case False
    with Cons.prems have "(g, ids) \<in> set pbg" "distinct (concat (map snd pbg))" by auto
    then show ?thesis using Cons.IH Cons.prems(3,4) by simp
  qed
qed



section \<open>The buckets\<close>

lemma push_to_keys: "map fst (push_to gen i pbg) = map fst pbg"
  by (induction pbg) (auto simp: push_to_def)

lemma push_to_absent: "gen \<notin> fst ` set pbg \<Longrightarrow> push_to gen i pbg = pbg"
  by (induction pbg) (auto simp: push_to_def)

lemma push_to_Cons:
  "push_to gen i ((g, ids) # pbg)
   = (if g = gen then (g, ids @ [i]) else (g, ids)) # push_to gen i pbg"
  by (simp add: push_to_def)

lemma push_to_set:
  "gen \<in> fst ` set pbg \<Longrightarrow>
     set (concat (map snd (push_to gen i pbg))) = insert i (set (concat (map snd pbg)))"
proof (induction pbg)
  case Nil
  then show ?case by simp
next
  case (Cons b pbg)
  obtain g ids where b: "b = (g, ids)" by (cases b)
  show ?case
  proof (cases "gen \<in> fst ` set pbg")
    case True
    with Cons.IH show ?thesis by (auto simp: b push_to_Cons)
  next
    case False
    with Cons.prems have "g = gen" by (simp add: b)
    with False show ?thesis by (auto simp: b push_to_Cons push_to_absent)
  qed
qed

lemma push_to_subset:
  "set (concat (map snd (push_to gen i pbg))) \<subseteq> insert i (set (concat (map snd pbg)))"
proof (cases "gen \<in> fst ` set pbg")
  case True
  then show ?thesis using push_to_set [of gen pbg i] by simp
next
  case False
  then show ?thesis by (auto simp: push_to_absent)
qed

lemma push_to_distinct:
  "distinct (map fst pbg) \<Longrightarrow> distinct (concat (map snd pbg)) \<Longrightarrow>
     i \<notin> set (concat (map snd pbg)) \<Longrightarrow> distinct (concat (map snd (push_to gen i pbg)))"
proof (induction pbg)
  case Nil
  then show ?case by (simp add: push_to_def)
next
  case (Cons b pbg)
  obtain g ids where b: "b = (g, ids)" by (cases b)
  show ?case
  proof (cases "g = gen")
    case True
    with Cons.prems(1) have "gen \<notin> fst ` set pbg" by (auto simp: b)
    then have "push_to gen i pbg = pbg" by (rule push_to_absent)
    with Cons.prems True show ?thesis by (auto simp: b push_to_Cons)
  next
    case False
    have d: "distinct (concat (map snd (push_to gen i pbg)))"
      using Cons.prems by (intro Cons.IH) (auto simp: b)
    have "set (concat (map snd (push_to gen i pbg))) \<subseteq> insert i (set (concat (map snd pbg)))"
      by (rule push_to_subset)
    moreover have "i \<notin> set ids" using Cons.prems(3) by (simp add: b)
    moreover have "set ids \<inter> set (concat (map snd pbg)) = {}" "distinct ids"
      using Cons.prems(2) by (auto simp: b)
    ultimately show ?thesis using d False
      by (simp add: b push_to_Cons) blast
  qed
qed

lemma js_insert_keys_distinct:
  "k \<notin> fst ` set obj \<Longrightarrow> distinct (map fst obj) \<Longrightarrow> distinct (map fst (js_insert ix k v obj))"
proof (induction obj)
  case Nil
  then show ?case by simp
next
  case (Cons b obj)
  have "fst ` set (js_insert ix k v obj) = insert k (fst ` set obj)"
    by (simp add: set_js_insert)
  with Cons show ?case by (cases b) (auto split: option.splits)
qed

lemma js_insert_empty_set:
  "set (concat (map snd (js_insert ix k [] obj))) = set (concat (map snd obj))"
  by (simp add: set_js_insert)

lemma js_insert_empty_distinct:
  "distinct (concat (map snd obj)) \<Longrightarrow> distinct (concat (map snd (js_insert ix k [] obj)))"
proof (induction obj)
  case Nil
  then show ?case by simp
next
  case (Cons b obj)
  have "set (concat (map snd (js_insert ix k [] obj))) = set (concat (map snd obj))"
    by (rule js_insert_empty_set)
  with Cons show ?case by (cases b) (auto split: option.splits)
qed

lemma bucket_ids_push_to:
  "gen \<in> fst ` set pbg \<Longrightarrow> set (bucket_ids (push_to gen i pbg)) = insert i (set (bucket_ids pbg))"
  unfolding bucket_ids_def by (rule push_to_set)

lemma bucket_ids_push_to_distinct:
  "distinct (map fst pbg) \<Longrightarrow> distinct (bucket_ids pbg) \<Longrightarrow> i \<notin> set (bucket_ids pbg) \<Longrightarrow>
     distinct (bucket_ids (push_to gen i pbg))"
  unfolding bucket_ids_def by (rule push_to_distinct)

lemma bucket_ids_js_insert:
  "set (bucket_ids (js_insert ix k [] pbg)) = set (bucket_ids pbg)"
  unfolding bucket_ids_def by (rule js_insert_empty_set)

lemma bucket_ids_js_insert_distinct:
  "distinct (bucket_ids pbg) \<Longrightarrow> distinct (bucket_ids (js_insert ix k [] pbg))"
  unfolding bucket_ids_def by (rule js_insert_empty_distinct)

lemma keys_push_to: "fst ` set (push_to gen i pbg) = fst ` set pbg"
  using push_to_keys [of gen i pbg] by (metis list.set_map)

lemma push_bucket_ok:
  assumes ok: "bucket_ok gns st" and key: "gen \<in> fst ` set (peopleByGen st)"
    and new: "i \<notin> addedToLayout st" and gn: "i \<in> fst ` set gns"
  shows "bucket_ok gns (st\<lparr>peopleByGen := push_to gen i (peopleByGen st),
                            addedToLayout := insert i (addedToLayout st)\<rparr>)"
proof -
  from ok have s: "set (bucket_ids (peopleByGen st)) = addedToLayout st"
    and d: "distinct (bucket_ids (peopleByGen st))"
    and k: "distinct (map fst (peopleByGen st))"
    and sub: "addedToLayout st \<subseteq> fst ` set gns"
    by (simp_all add: bucket_ok_def)
  have "set (bucket_ids (push_to gen i (peopleByGen st))) = insert i (addedToLayout st)"
    using bucket_ids_push_to [OF key] s by simp
  moreover have "distinct (bucket_ids (push_to gen i (peopleByGen st)))"
    using k d new s by (intro bucket_ids_push_to_distinct) simp_all
  moreover have "distinct (map fst (push_to gen i (peopleByGen st)))"
    using k by (simp add: push_to_keys)
  ultimately show ?thesis using sub gn by (simp add: bucket_ok_def)
qed

lemma layout_spouse_inv:
  assumes "spouse_inv gns gen A st"
  shows "spouse_inv gns gen A (layout_spouse gns i gen m st)"
proof -
  let ?sp = "if spouse1Id m = i then spouse2Id m else spouse1Id m"
  show ?thesis
  proof (cases "?sp \<noteq> [] \<and> ?sp \<notin> addedToLayout st \<and> map_of gns ?sp = Some gen")
    case False
    with assms show ?thesis by (auto simp: layout_spouse_def Let_def)
  next
    case True
    then have "(?sp, gen) \<in> set gns" by (intro map_of_SomeD) simp
    then have gn: "?sp \<in> fst ` set gns" by force
    from assms have ok: "bucket_ok gns st" and key: "gen \<in> fst ` set (peopleByGen st)"
      and A: "A \<subseteq> addedToLayout st" by (simp_all add: spouse_inv_def)
    have new: "?sp \<notin> addedToLayout st" using True by simp
    have "bucket_ok gns (st\<lparr>peopleByGen := push_to gen ?sp (peopleByGen st),
                            addedToLayout := insert ?sp (addedToLayout st)\<rparr>)"
      using ok key new gn by (rule push_bucket_ok)
    moreover have "layout_spouse gns i gen m st
      = st\<lparr>peopleByGen := push_to gen ?sp (peopleByGen st),
           addedToLayout := insert ?sp (addedToLayout st)\<rparr>"
      using True unfolding layout_spouse_def Let_def by (simp only: if_True simp_thms)
    ultimately show ?thesis using key A by (auto simp: spouse_inv_def keys_push_to)
  qed
qed

lemma layout_person_inv:
  assumes ok: "bucket_ok gns st" and gn: "i \<in> fst ` set gns"
  shows "bucket_ok gns (layout_person tree gns (i, gen) st)
         \<and> insert i (addedToLayout st) \<subseteq> addedToLayout (layout_person tree gns (i, gen) st)"
proof (cases "i \<in> addedToLayout st")
  case True
  with ok show ?thesis by (simp add: layout_person_def)
next
  case False
  let ?pbg = "if map_of (peopleByGen st) gen = None
              then js_set number_index gen [] (peopleByGen st) else peopleByGen st"
  let ?st0 = "st\<lparr>peopleByGen := ?pbg\<rparr>"
  let ?st1 = "st\<lparr>peopleByGen := push_to gen i ?pbg,
                  addedToLayout := insert i (addedToLayout st)\<rparr>"
  let ?ms = "filter (\<lambda>m. spouse1Id m = i \<or> spouse2Id m = i) (map snd (marriages tree))"
  from ok have s: "set (bucket_ids (peopleByGen st)) = addedToLayout st"
    and d: "distinct (bucket_ids (peopleByGen st))"
    and k: "distinct (map fst (peopleByGen st))"
    and sub: "addedToLayout st \<subseteq> fst ` set gns"
    by (simp_all add: bucket_ok_def)
  have ok0: "bucket_ok gns ?st0"
  proof (cases "map_of (peopleByGen st) gen = None")
    case True
    then have "gen \<notin> fst ` set (peopleByGen st)" by (simp add: map_of_eq_None_iff)
    then have "distinct (map fst (js_insert number_index gen [] (peopleByGen st)))"
      using k by (rule js_insert_keys_distinct)
    with True s d sub show ?thesis
      by (simp add: bucket_ok_def js_set_def bucket_ids_js_insert bucket_ids_js_insert_distinct)
  next
    case False
    then obtain ids where "map_of (peopleByGen st) gen = Some ids" by auto
    then show ?thesis using ok by simp
  qed
  have key0: "gen \<in> fst ` set ?pbg"
  proof (cases "map_of (peopleByGen st) gen = None")
    case True
    then show ?thesis by (simp add: js_set_def set_js_insert)
  next
    case False
    then show ?thesis by (simp add: map_of_eq_None_iff)
  qed
  have "bucket_ok gns (?st0\<lparr>peopleByGen := push_to gen i (peopleByGen ?st0),
                            addedToLayout := insert i (addedToLayout ?st0)\<rparr>)"
    using ok0 _ _ gn by (rule push_bucket_ok) (use key0 False in simp_all)
  then have ok1: "bucket_ok gns ?st1" by simp
  have "spouse_inv gns gen (insert i (addedToLayout st)) ?st1"
    using ok1 key0 by (simp add: spouse_inv_def keys_push_to)
  then have "spouse_inv gns gen (insert i (addedToLayout st)) (fold (layout_spouse gns i gen) ?ms ?st1)"
    by (rule fold_invariant) (rule layout_spouse_inv)
  moreover have "layout_person tree gns (i, gen) st = fold (layout_spouse gns i gen) ?ms ?st1"
    using False by (simp add: layout_person_def Let_def)
  ultimately show ?thesis by (simp add: spouse_inv_def)
qed

lemma fold_layout_person_inv:
  "bucket_ok gns st \<Longrightarrow> set xs \<subseteq> set gns \<Longrightarrow>
     bucket_ok gns (fold (layout_person tree gns) xs st)
     \<and> addedToLayout st \<union> fst ` set xs \<subseteq> addedToLayout (fold (layout_person tree gns) xs st)"
proof (induction xs arbitrary: st)
  case Nil
  then show ?case by simp
next
  case (Cons a xs)
  obtain i gen where a: "a = (i, gen)" by (cases a)
  have "i \<in> fst ` set gns" using Cons.prems(2) a by force
  with Cons.prems(1) have step: "bucket_ok gns (layout_person tree gns (i, gen) st)"
    "insert i (addedToLayout st) \<subseteq> addedToLayout (layout_person tree gns (i, gen) st)"
    using layout_person_inv by blast+
  from Cons.IH [OF step(1)] Cons.prems(2)
  have "bucket_ok gns (fold (layout_person tree gns) xs (layout_person tree gns (i, gen) st))"
    "addedToLayout (layout_person tree gns (i, gen) st) \<union> fst ` set xs
       \<subseteq> addedToLayout (fold (layout_person tree gns) xs (layout_person tree gns (i, gen) st))"
    by simp_all
  with step(2) show ?case by (auto simp: a)
qed

lemma buckets_ok:
  "distinct (bucket_ids (buckets tree gns))
   \<and> set (bucket_ids (buckets tree gns)) = fst ` set gns"
proof -
  let ?st = "fold (layout_person tree gns) (sort_key snd gns) \<lparr>peopleByGen = [], addedToLayout = {}\<rparr>"
  have "bucket_ok gns \<lparr>peopleByGen = [], addedToLayout = {}\<rparr>"
    by (simp add: bucket_ok_def bucket_ids_def)
  then have "bucket_ok gns ?st \<and> {} \<union> fst ` set (sort_key snd gns) \<subseteq> addedToLayout ?st"
    using fold_layout_person_inv [of gns "\<lparr>peopleByGen = [], addedToLayout = {}\<rparr>" "sort_key snd gns" tree]
    by simp
  then show ?thesis
    by (auto simp: bucket_ok_def buckets_def)
qed

section \<open>The layout\<close>

lemma personCoords_layout_of:
  "personCoords (layout_of tree gns) = fold place_row (buckets tree gns) Map.empty"
  by (simp add: layout_of_def Let_def)

lemma marriageCoords_layout_of:
  "marriageCoords (layout_of tree gns)
   = fold (place_marriage (personCoords (layout_of tree gns))) (map snd (marriages tree)) Map.empty"
  by (simp add: layout_of_def Let_def)

lemma gens_layout_of: "gens (layout_of tree gns) = gns"
  by (simp add: layout_of_def Let_def)

lemma layout_gens:
  "gens (layout tree)
   = (case persons tree of [] \<Rightarrow> [] | (rootId, p) # rest \<Rightarrow> computeGenerations tree rootId)"
  by (simp add: layout_def gens_layout_of split: list.splits prod.splits)

lemma layout_layout_of: "layout tree = layout_of tree (gens (layout tree))"
  by (simp add: layout_def gens_layout_of split: list.splits prod.splits)

lemma dom_personCoords_layout_of:
  "dom (personCoords (layout_of tree gns)) = fst ` set gns - {''__proto__''}"
  using buckets_ok [of tree gns]
  by (simp add: personCoords_layout_of fold_place_row_dom bucket_ids_def)

lemma layout_gens_no_proto: "''__proto__'' \<notin> fst ` set (gens (layout tree))"
proof (cases "persons tree")
  case Nil
  then show ?thesis by (simp add: layout_gens)
next
  case (Cons a rest)
  obtain rootId p where "a = (rootId, p)" by (cases a)
  with Cons show ?thesis by (simp add: layout_gens computeGenerations_no_proto)
qed

lemma layout_buckets_no_proto:
  assumes "(g, ids) \<in> set (buckets tree (gens (layout tree)))"
  shows "''__proto__'' \<notin> set ids"
proof
  assume "''__proto__'' \<in> set ids"
  with assms have "''__proto__'' \<in> set (bucket_ids (buckets tree (gens (layout tree))))"
    by (force simp: bucket_ids_def)
  then have "''__proto__'' \<in> fst ` set (gens (layout tree))"
    using buckets_ok [of tree "gens (layout tree)"] by simp
  then show False using layout_gens_no_proto by blast
qed

lemma personCoords_layout_of_lookup:
  assumes "(g, ids) \<in> set (buckets tree gns)" and "idx < length ids"
    and "ids ! idx \<noteq> ''__proto__''"
  shows "personCoords (layout_of tree gns) (ids ! idx)
     = Some \<lparr>x_coord = of_nat idx * HORIZONTAL_SPACING
                        - (of_nat (length ids) - 1) * HORIZONTAL_SPACING / 2,
             y_coord = of_int g * VERTICAL_SPACING\<rparr>"
proof -
  have "distinct (concat (map snd (buckets tree gns)))"
    using buckets_ok [of tree gns] by (simp add: bucket_ids_def)
  then show ?thesis
    unfolding personCoords_layout_of using assms by (rule fold_place_row_lookup)
qed


lemma family5_layout_gens:
  "gens (layout family5) = [(''R'', 0), (''S'', 0), (''C'', 1), (''D'', 1), (''E'', 2)]"
proof -
  have "persons family5 = (''R'', mkPerson ''R'') # map (\<lambda>i. (i, mkPerson i)) [''S'', ''C'', ''D'', ''E'']"
    by (simp add: family5_def mkTree_def)
  then show ?thesis by (simp add: layout_gens family5_generations)
qed

lemma family5_buckets:
  "buckets family5 [(''R'', 0), (''S'', 0), (''C'', 1), (''D'', 1), (''E'', 2)]
   = [(0, [''R'', ''S'']), (1, [''C'', ''D'']), (2, [''E''])]"
  by (simp add: buckets_def layout_person_def layout_spouse_def push_to_def js_set_def
      number_index_def family5_def mkTree_def mkMarriage_def Let_def)



lemma apart_generations: "computeGenerations apart ''R'' = [(''R'', 0), (''S'', 0)]"
  by (simp add: computeGenerations_def has_member_def apart_def mkTree_def mkMarriage_def bfs_init_def
      bfs_step_def bfs_loop.simps visit_parents_def visit_parent_def visit_marriage_def
      visit_child_def enqueue_def js_assign_def js_set_def array_index_def digit_def
      getChildrenOfMarriage_def Let_def)

lemma apart_reachable: "rtranclp (linked apart) ''R'' q \<Longrightarrow> q = ''R'' \<or> q = ''S''"
proof (induction rule: rtranclp_induct)
  case base
  show ?case by simp
next
  case (step y z)
  then show ?case
    by (auto simp: linked_def apart_def mkTree_def mkMarriage_def getChildrenOfMarriage_def)
qed

lemma layout_of_gens: "layout_of tree (gens (layout tree)) = layout tree"
  by (rule layout_layout_of [symmetric])

lemma marriageCoords_layout:
  "marriageCoords (layout tree)
   = fold (place_marriage (personCoords (layout tree))) (map snd (marriages tree)) Map.empty"
  using marriageCoords_layout_of [of tree "gens (layout tree)"] by (simp only: layout_of_gens)






text \<open>
  The look-up of a spouse's coordinate finds the members of the prototype: in the tree
  \<open>inheritedSpouses\<close> neither spouse of m1 has a coordinate, and m1 has the entry
  (NaN, NaN).
\<close>

lemma inheritedSpouses_generations:
  "computeGenerations inheritedSpouses ''R'' = [(''R'', 0)]"
  by (simp add: computeGenerations_def has_member_def inheritedSpouses_def mkTree_def
      mkMarriage_def bfs_init_def
      bfs_step_def bfs_loop.simps visit_parents_def visit_parent_def visit_marriage_def
      visit_child_def enqueue_def js_assign_def js_set_def array_index_def digit_def
      getChildrenOfMarriage_def Let_def)

lemma inheritedSpouses_layout:
  "layout inheritedSpouses = layout_of inheritedSpouses [(''R'', 0)]"
proof -
  have "persons inheritedSpouses = [(''R'', mkPerson ''R'')]"
    by (simp add: inheritedSpouses_def mkTree_def)
  then have "gens (layout inheritedSpouses) = [(''R'', 0)]"
    by (simp add: layout_gens inheritedSpouses_generations)
  with layout_layout_of [of inheritedSpouses] show ?thesis by (simp only:)
qed

lemma inheritedSpouses_marriage:
  "personCoords (layout inheritedSpouses) ''toString'' = None
   \<and> personCoords (layout inheritedSpouses) ''valueOf'' = None
   \<and> marriageCoords (layout inheritedSpouses) ''m1'' = Some \<lparr>x_mid = NaN, y_mid = NaN\<rparr>"
proof -
  have b: "buckets inheritedSpouses [(''R'', 0)] = [(0, [''R''])]"
    by (simp add: buckets_def layout_person_def layout_spouse_def push_to_def js_set_def
        number_index_def inheritedSpouses_def mkTree_def mkMarriage_def Let_def)
  have p: "personCoords (layout inheritedSpouses) ''toString'' = None"
    "personCoords (layout inheritedSpouses) ''valueOf'' = None"
    by (simp_all add: inheritedSpouses_layout personCoords_layout_of b place_row_def
        place_person_def Let_def)
  have ms: "map snd (marriages inheritedSpouses) = [mkMarriage ''m1'' ''toString'' ''valueOf'']"
    by (simp add: inheritedSpouses_def mkTree_def)
  have "marriageCoords (layout inheritedSpouses) ''m1'' = Some \<lparr>x_mid = NaN, y_mid = NaN\<rparr>"
    by (simp add: marriageCoords_layout ms mkMarriage_def p place_marriage_def
        read_coord_def inherited_def object_prototype_names_def Let_def)
  with p show ?thesis by simp
qed



lemma row_x_symmetric: "idx < n \<Longrightarrow> row_x n idx + row_x n (n - 1 - idx) = 0"
proof -
  assume "idx < n"
  then have "(of_nat (n - 1 - idx) :: rat) = of_nat n - 1 - of_nat idx"
    by (simp add: of_nat_diff)
  then show ?thesis by (simp add: row_x_def algebra_simps)
qed

lemma row_x_step: "row_x n (Suc idx) - row_x n idx = HORIZONTAL_SPACING"
  by (simp add: row_x_def algebra_simps)

text \<open>
  C8. The person at index idx of a bucket of n persons for generation g has the
  x-coordinate idx * S - (n - 1) * S / 2 and the y-coordinate g times the vertical
  spacing; the x-coordinates at idx and at n - 1 - idx add up to 0, and those of two
  consecutive persons differ by S.
\<close>

theorem row_centering:
  assumes "(g, ids) \<in> set (buckets T (gens (layout T)))" and "idx < length ids"
  shows "personCoords (layout T) (ids ! idx)
           = Some \<lparr>x_coord = row_x (length ids) idx, y_coord = of_int g * VERTICAL_SPACING\<rparr>
    \<and> row_x (length ids) idx + row_x (length ids) (length ids - 1 - idx) = 0
    \<and> (Suc idx < length ids
         \<longrightarrow> row_x (length ids) (Suc idx) - row_x (length ids) idx = HORIZONTAL_SPACING)"
proof -
  have "personCoords (layout_of T (gens (layout T))) (ids ! idx)
        = Some \<lparr>x_coord = row_x (length ids) idx, y_coord = of_int g * VERTICAL_SPACING\<rparr>"
  proof -
    have "ids ! idx \<in> set ids" using assms(2) by simp
    with layout_buckets_no_proto [OF assms(1)] have "ids ! idx \<noteq> ''__proto__''" by auto
    with assms show ?thesis
      unfolding row_x_def by (rule personCoords_layout_of_lookup)
  qed
  then have "personCoords (layout T) (ids ! idx)
        = Some \<lparr>x_coord = row_x (length ids) idx, y_coord = of_int g * VERTICAL_SPACING\<rparr>"
    by (simp only: layout_of_gens)
  then show ?thesis
    using row_x_symmetric [OF assms(2)] row_x_step by simp
qed

theorem row_centering_witness:
  "(1, [''C'', ''D'']) \<in> set (buckets family5 (gens (layout family5)))
   \<and> (0::nat) < length [''C'', ''D'']
   \<and> personCoords (layout family5) ''C'' = Some \<lparr>x_coord = - 150, y_coord = 260\<rparr>
   \<and> row_x 2 0 = - 150 \<and> row_x 2 1 = 150"
proof -
  have b: "(1, [''C'', ''D'']) \<in> set (buckets family5 (gens (layout family5)))"
    by (simp add: family5_layout_gens family5_buckets)
  have l: "(0::nat) < length [''C'', ''D'']" by simp
  have r: "row_x 2 0 = - 150" "row_x 2 1 = 150"
    by (simp_all add: row_x_def HORIZONTAL_SPACING_def)
  from row_centering [OF b l]
  have "personCoords (layout family5) ''C''
        = Some \<lparr>x_coord = row_x 2 0, y_coord = of_int 1 * VERTICAL_SPACING\<rparr>"
    by (simp add: numeral_2_eq_2)
  then have "personCoords (layout family5) ''C'' = Some \<lparr>x_coord = - 150, y_coord = 260\<rparr>"
    by (simp add: r VERTICAL_SPACING_def)
  with b l r show ?thesis by simp
qed

text \<open>
  C9. The persons with a coordinate are the keys of the generation mapping, which is
  that of \<open>computeGenerations\<close> from the root; a person without a path from the root is
  in neither.
\<close>

theorem coords_domain:
  "dom (personCoords (layout T)) = fst ` set (gens (layout T))
   \<and> gens (layout T)
     = (case persons T of [] \<Rightarrow> [] | (rootId, p) # rest \<Rightarrow> computeGenerations T rootId)
   \<and> (\<forall>rootId p rest q.
         persons T = (rootId, p) # rest \<and> \<not> rtranclp (linked T) rootId q
         \<longrightarrow> q \<notin> fst ` set (computeGenerations T rootId)
             \<and> q \<notin> dom (personCoords (layout T)))"
proof -
  have "dom (personCoords (layout T)) = fst ` set (gens (layout T)) - {''__proto__''}"
    using dom_personCoords_layout_of [of T "gens (layout T)"] by (simp only: layout_of_gens)
  then have d: "dom (personCoords (layout T)) = fst ` set (gens (layout T))"
    using layout_gens_no_proto [of T] by simp
  have g: "gens (layout T)
     = (case persons T of [] \<Rightarrow> [] | (rootId, p) # rest \<Rightarrow> computeGenerations T rootId)"
    by (rule layout_gens)
  have r: "\<forall>rootId p rest q.
         persons T = (rootId, p) # rest \<and> \<not> rtranclp (linked T) rootId q
         \<longrightarrow> q \<notin> fst ` set (computeGenerations T rootId)
             \<and> q \<notin> dom (personCoords (layout T))"
  proof (intro allI impI)
    fix rootId p rest q
    assume a: "persons T = (rootId, p) # rest \<and> \<not> rtranclp (linked T) rootId q"
    have n: "q \<notin> fst ` set (computeGenerations T rootId)"
    proof
      assume "q \<in> fst ` set (computeGenerations T rootId)"
      then have "rtranclp (linked T) rootId q" by (rule computeGenerations_reachable)
      with a show False by simp
    qed
    have "gens (layout T) = computeGenerations T rootId"
      using a by (simp add: g)
    with n have "q \<notin> fst ` set (gens (layout T))" by simp
    with n show "q \<notin> fst ` set (computeGenerations T rootId)
                 \<and> q \<notin> dom (personCoords (layout T))"
      by (simp only: d simp_thms)
  qed
  show ?thesis by (intro conjI) (rule d, rule g, rule r)
qed

theorem coords_domain_witness:
  "persons apart = (''R'', mkPerson ''R'') # map (\<lambda>i. (i, mkPerson i)) [''S'', ''P'', ''Q'']
   \<and> \<not> rtranclp (linked apart) ''R'' ''P''
   \<and> ''P'' \<notin> fst ` set (computeGenerations apart ''R'')
   \<and> ''P'' \<notin> dom (personCoords (layout apart))
   \<and> dom (personCoords (layout apart)) = {''R'', ''S''}"
proof -
  have p: "persons apart = (''R'', mkPerson ''R'') # map (\<lambda>i. (i, mkPerson i)) [''S'', ''P'', ''Q'']"
    by (simp add: apart_def mkTree_def)
  have n: "\<not> rtranclp (linked apart) ''R'' ''P''"
    using apart_reachable [of "''P''"] by auto
  have g: "gens (layout apart) = [(''R'', 0), (''S'', 0)]"
    using p by (simp add: layout_gens apart_generations)
  have d: "dom (personCoords (layout apart)) = {''R'', ''S''}"
    using coords_domain [of apart] by (simp add: g)
  then have "''P'' \<notin> dom (personCoords (layout apart))" by simp
  moreover have "''P'' \<notin> fst ` set (computeGenerations apart ''R'')"
    by (simp add: apart_generations)
  ultimately show ?thesis using p n d by blast
qed

section \<open>Child insertion\<close>

lemma addChild_has_link:
  "list_ex (\<lambda>link. marriageId link = m \<and> personId link = p) (children (addChild T m p))"
  by (simp add: addChild_def list_ex_iff)

text \<open>
  C4. Adding the same child link twice is the same as adding it once, and when the tree
  had no link for the pair, the tree after two insertions has exactly one.
\<close>

theorem addChild_idempotent:
  "addChild (addChild T m p) m p = addChild T m p
   \<and> (\<not> list_ex (\<lambda>link. marriageId link = m \<and> personId link = p) (children T)
      \<longrightarrow> length (filter (\<lambda>link. marriageId link = m \<and> personId link = p)
            (children (addChild (addChild T m p) m p))) = 1)"
proof -
  have again: "addChild (addChild T m p) m p = addChild T m p"
    using addChild_has_link [of m p T] by (simp add: addChild_def [of "addChild T m p"])
  have none: "filter (\<lambda>link. marriageId link = m \<and> personId link = p) (children T) = []"
    if "\<not> list_ex (\<lambda>link. marriageId link = m \<and> personId link = p) (children T)"
    using that by (auto simp: list_ex_iff filter_empty_conv)
  show ?thesis
    unfolding again using none by (auto simp: addChild_def)
qed

theorem addChild_idempotent_witness:
  "\<not> list_ex (\<lambda>link. marriageId link = ''m1'' \<and> personId link = ''E'') (children family5)
   \<and> addChild (addChild family5 ''m1'' ''E'') ''m1'' ''E'' = addChild family5 ''m1'' ''E''
   \<and> length (filter (\<lambda>link. marriageId link = ''m1'' \<and> personId link = ''E'')
       (children (addChild (addChild family5 ''m1'' ''E'') ''m1'' ''E''))) = 1"
proof -
  have h: "\<not> list_ex (\<lambda>link. marriageId link = ''m1'' \<and> personId link = ''E'') (children family5)"
    by (simp add: family5_def mkTree_def)
  show ?thesis
    using h addChild_idempotent [of family5 "''m1''" "''E''"] by blast
qed

section \<open>Deleting a person\<close>

lemma deletePerson_persons:
  "persons (deletePerson T X) = filter (\<lambda>(k, p). k \<noteq> X) (persons T)"
  by (simp add: deletePerson_def Let_def)

lemma deletePerson_marriages:
  "marriages (deletePerson T X)
   = filter (\<lambda>(k, m). \<not> (spouse1Id m = X \<or> spouse2Id m = X)) (marriages T)"
  by (simp add: deletePerson_def Let_def)

lemma deletePerson_children:
  "children (deletePerson T X)
   = filter (\<lambda>link. personId link \<noteq> X
               \<and> has_member (marriages (deletePerson T X)) (marriageId link))
       (children T)"
  by (simp add: deletePerson_def Let_def)

text \<open>
  What the cascade leaves: the person is gone, no marriage names it, no child link is
  its own, and the marriage of every child link is a key of the marriage mapping unless
  the link's marriage identifier is the name of a member of \<^verbatim>\<open>Object.prototype\<close>.
\<close>

lemma deletePerson_cascade_own:
  "X \<notin> fst ` set (persons (deletePerson T X))
    \<and> (\<forall>(k, m) \<in> set (marriages (deletePerson T X)). spouse1Id m \<noteq> X \<and> spouse2Id m \<noteq> X)
    \<and> (\<forall>link \<in> set (children (deletePerson T X)).
          \<not> inherited (marriageId link)
          \<longrightarrow> marriageId link \<in> fst ` set (marriages (deletePerson T X)))
    \<and> (\<forall>link \<in> set (children (deletePerson T X)). personId link \<noteq> X)"
proof -
  have a: "X \<notin> fst ` set (persons (deletePerson T X))"
    by (auto simp: deletePerson_persons)
  have b: "\<forall>(k, m) \<in> set (marriages (deletePerson T X)). spouse1Id m \<noteq> X \<and> spouse2Id m \<noteq> X"
    by (auto simp: deletePerson_marriages)
  have c: "\<forall>link \<in> set (children (deletePerson T X)).
             \<not> inherited (marriageId link)
             \<longrightarrow> marriageId link \<in> fst ` set (marriages (deletePerson T X))"
  proof (intro ballI impI)
    fix link assume "link \<in> set (children (deletePerson T X))" and "\<not> inherited (marriageId link)"
    then have "has_member (marriages (deletePerson T X)) (marriageId link)"
      by (subst (asm) deletePerson_children) simp
    with \<open>\<not> inherited (marriageId link)\<close>
    show "marriageId link \<in> fst ` set (marriages (deletePerson T X))"
      by (simp add: has_member_iff)
  qed
  have d: "\<forall>link \<in> set (children (deletePerson T X)). personId link \<noteq> X"
    by (subst deletePerson_children) simp
  from a b c d show ?thesis by blast
qed

text \<open>
  C1. Part (c) of the claim fails in the code on the tree \<open>inheritedLink\<close>: deleting R
  removes the marriage \<^verbatim>\<open>toString\<close> of R and S, and the child link of C to that
  marriage stays, since \<^verbatim>\<open>newMarriages[link.marriageId]\<close> finds the inherited function
  \<^verbatim>\<open>toString\<close>. The link's marriage is no key of the marriage mapping of the result.
\<close>

theorem deletePerson_keeps_inherited_link:
  "''R'' \<in> fst ` set (persons inheritedLink)
   \<and> marriages (deletePerson inheritedLink ''R'') = []
   \<and> children (deletePerson inheritedLink ''R'')
     = [\<lparr>marriageId = ''toString'', personId = ''C''\<rparr>]"
  by (simp add: deletePerson_def inheritedLink_def mkTree_def mkMarriage_def has_member_def
      inherited_def object_prototype_names_def)

text \<open>
  C10. Deleting the same person a second time changes nothing.
\<close>

theorem deletePerson_idempotent:
  "deletePerson (deletePerson T X) X = deletePerson T X"
proof -
  have p: "persons (deletePerson (deletePerson T X) X) = persons (deletePerson T X)"
    by (simp add: deletePerson_persons)
  have m: "marriages (deletePerson (deletePerson T X) X) = marriages (deletePerson T X)"
    by (simp add: deletePerson_marriages)
  have c: "children (deletePerson (deletePerson T X) X) = children (deletePerson T X)"
    by (auto simp: deletePerson_def Let_def intro!: filter_cong)
  from p m c show ?thesis by simp
qed

end
